theory Spec2Isabelle
  imports Complex_Main "HOL-Library.AList" "HOL-Library.Sublist" "HOL-Library.Log_Nat"
    "HOL-Library.Multiset"
begin

section \<open>JavaScript strings\<close>

text \<open>
  The dashboard (\<^verbatim>\<open>src/pages/index.js\<close>) works on JavaScript strings. A string is modelled
  as a \<^typ>\<open>string\<close> whose characters are the code units \<open>0 \<dots> 255\<close> (the Latin-1 range
  of UTF-16). On that range \<^verbatim>\<open>trim\<close>, \<^verbatim>\<open>toLowerCase\<close> and the regular-expression class
  \<^verbatim>\<open>\s\<close> act exactly as written below; text outside that range is outside the model.
\<close>

abbreviation LF :: char where "LF \<equiv> CHR 0x0A"
abbreviation CR :: char where "CR \<equiv> CHR 0x0D"

definition is_space :: "char \<Rightarrow> bool" where
  \<comment> \<open>WhiteSpace and LineTerminator of ECMAScript below 256: TAB, LF, VT, FF, CR, SP, NBSP.\<close>
  "is_space c = (let n = (of_char c :: nat) in
     n = 9 \<or> n = 10 \<or> n = 11 \<or> n = 12 \<or> n = 13 \<or> n = 32 \<or> n = 160)"

definition trim :: "string \<Rightarrow> string" where
  \<comment> \<open>\<^verbatim>\<open>s.trim()\<close>\<close>
  "trim s = rev (dropWhile is_space (rev (dropWhile is_space s)))"

definition is_upper :: "char \<Rightarrow> bool" where
  \<comment> \<open>the code units below 256 that \<^verbatim>\<open>toLowerCase\<close> changes: A-Z and U+00C0-U+00DE without U+00D7\<close>
  "is_upper c = (let n = (of_char c :: nat) in
     (65 \<le> n \<and> n \<le> 90) \<or> (192 \<le> n \<and> n \<le> 222 \<and> n \<noteq> 215))"

definition lower_char :: "char \<Rightarrow> char" where
  \<comment> \<open>the lower-case letter is 32 code units above its capital: bit 5 is set\<close>
  "lower_char c = (if is_upper c
     then (case c of Char b0 b1 b2 b3 b4 b5 b6 b7 \<Rightarrow> Char b0 b1 b2 b3 b4 True b6 b7)
     else c)"

definition toLowerCase :: "string \<Rightarrow> string" where
  "toLowerCase s = map lower_char s"

fun includes_str :: "string \<Rightarrow> string \<Rightarrow> bool" where
  \<comment> \<open>\<^verbatim>\<open>s.includes(x)\<close>: \<open>x\<close> occurs in \<open>s\<close> as a contiguous run\<close>
  "includes_str [] x = (x = [])"
| "includes_str (c # s) x = (prefix x (c # s) \<or> includes_str s x)"

definition startsWith :: "string \<Rightarrow> string \<Rightarrow> bool" where
  "startsWith s x = prefix x s"

fun join :: "string \<Rightarrow> string list \<Rightarrow> string" where
  \<comment> \<open>\<^verbatim>\<open>parts.join(sep)\<close>\<close>
  "join sep [] = []"
| "join sep [t] = t"
| "join sep (t # u # ts) = t @ sep @ join sep (u # ts)"

fun cons_first :: "char \<Rightarrow> string list \<Rightarrow> string list" where
  \<comment> \<open>puts a character in front of the piece being read\<close>
  "cons_first c [] = [[c]]"
| "cons_first c (t # ts) = (c # t) # ts"

fun split_char :: "char \<Rightarrow> string \<Rightarrow> string list" where
  \<comment> \<open>\<^verbatim>\<open>s.split(",")\<close> with a one-character separator; the empty string gives one empty piece\<close>
  "split_char sep [] = [[]]"
| "split_char sep (c # cs) =
     (if c = sep then [] # split_char sep cs else cons_first c (split_char sep cs))"

fun split_lines :: "string \<Rightarrow> string list" where
  \<comment> \<open>\<^verbatim>\<open>s.split(/\r?\n/)\<close>: a line feed, or a carriage return directly before one, separates\<close>
  "split_lines [] = [[]]"
| "split_lines (c # cs) =
     (if c = LF then [] # split_lines cs
      else (case cs of
              [] \<Rightarrow> [[c]]
            | d # ds \<Rightarrow> if c = CR \<and> d = LF then [] # split_lines ds
                        else cons_first c (split_lines cs)))"

definition is_sep :: "char \<Rightarrow> bool" where
  \<comment> \<open>the character class \<^verbatim>\<open>[;,\s]\<close>\<close>
  "is_sep c = (c = CHR '';'' \<or> c = CHR '','' \<or> is_space c)"

function split_seps :: "string \<Rightarrow> string list" where
  \<comment> \<open>\<^verbatim>\<open>s.split(/[;,\s]+/)\<close>: every maximal run of separators separates\<close>
  "split_seps [] = [[]]"
| "split_seps (c # cs) =
     (if is_sep c then [] # split_seps (dropWhile is_sep cs)
      else cons_first c (split_seps cs))"
  by pat_completeness auto
termination
  by (relation "measure length") (auto simp: length_dropWhile_le less_Suc_eq_le)

section \<open>Records: plain objects with string values\<close>

text \<open>
  Every record of the dashboard is a plain object built by \<^verbatim>\<open>parseCSV\<close> or by
  \<^verbatim>\<open>addIncident\<close>: string keys, string values. It is modelled by the list of its own
  properties in the order \<^verbatim>\<open>Object.keys\<close> returns them: array-index keys first, in
  ascending numeric order, then all other keys in order of creation. Reading a property
  that is absent gives \<^verbatim>\<open>undefined\<close>, here \<^const>\<open>None\<close>.
\<close>

type_synonym js_object = "(string \<times> string) list"

definition js_get :: "js_object \<Rightarrow> string \<Rightarrow> string option" where
  \<comment> \<open>\<^verbatim>\<open>r.k\<close> and \<^verbatim>\<open>r[k]\<close>\<close>
  "js_get r k = map_of r k"

fun js_or :: "string option \<Rightarrow> string \<Rightarrow> string" where
  \<comment> \<open>\<^verbatim>\<open>v || d\<close>: \<^verbatim>\<open>undefined\<close> and the empty string are falsy\<close>
  "js_or None d = d"
| "js_or (Some v) d = (if v = [] then d else v)"

definition is_digit :: "char \<Rightarrow> bool" where
  "is_digit c = (48 \<le> (of_char c :: nat) \<and> (of_char c :: nat) \<le> 57)"

definition digits_value :: "string \<Rightarrow> int" where
  "digits_value s = foldl (\<lambda>n c. 10 * n + (of_char c - 48)) 0 s"

definition is_array_index :: "string \<Rightarrow> bool" where
  \<comment> \<open>a canonical numeric string below \<open>2\<^sup>3\<^sup>2 - 1\<close>\<close>
  "is_array_index k = (k \<noteq> [] \<and> list_all is_digit k \<and> (k = ''0'' \<or> hd k \<noteq> CHR ''0'')
     \<and> digits_value k < 4294967295)"

fun insert_index :: "string \<Rightarrow> string \<Rightarrow> js_object \<Rightarrow> js_object" where
  \<comment> \<open>a new array-index key goes after the smaller array-index keys\<close>
  "insert_index k v [] = [(k, v)]"
| "insert_index k v (p # ps) =
     (if is_array_index (fst p) \<and> digits_value (fst p) < digits_value k
      then p # insert_index k v ps
      else (k, v) # p # ps)"

definition js_set :: "js_object \<Rightarrow> string \<Rightarrow> string \<Rightarrow> js_object" where
  \<comment> \<open>\<^verbatim>\<open>row[k] = v\<close> on an object made by \<^verbatim>\<open>{}\<close>: assigning a string to \<^verbatim>\<open>__proto__\<close>
      runs the inherited setter, which ignores it and creates no property\<close>
  "js_set r k v =
     (if k = ''__proto__'' then r
      else if map_of r k \<noteq> None then AList.update k v r
      else if is_array_index k then insert_index k v r
      else r @ [(k, v)])"

section \<open>The Tabular Decoder\<close>

definition nth_opt :: "'a list \<Rightarrow> nat \<Rightarrow> 'a option" where
  \<comment> \<open>\<^verbatim>\<open>cols[i]\<close>: \<^verbatim>\<open>undefined\<close> past the end\<close>
  "nth_opt xs i = (if i < length xs then Some (xs ! i) else None)"

definition cell :: "string list \<Rightarrow> nat \<Rightarrow> string" where
  \<comment> \<open>\<^verbatim>\<open>(cols[i] || "").trim()\<close>\<close>
  "cell cols i = trim (js_or (nth_opt cols i) [])"

definition build_row :: "string list \<Rightarrow> string list \<Rightarrow> js_object" where
  \<comment> \<open>\<^verbatim>\<open>row = {}; headers.forEach((h, i) => (row[h.trim()] = (cols[i] || "").trim()))\<close>\<close>
  "build_row headers cols =
     fold (\<lambda>(i, h) row. js_set row (trim h) (cell cols i)) (enumerate 0 headers) []"

definition parseCSV :: "string \<Rightarrow> js_object list" where
  "parseCSV text =
     (let lines = split_lines (trim text)
      in if length lines = 0 then []
         else (let headers = split_char (CHR '','') (lines ! 0)
               in map (\<lambda>l. build_row headers (split_char (CHR '','') l)) (drop 1 lines)))"

section \<open>JavaScript numbers\<close>

text \<open>
  A JavaScript number is an IEEE-754 binary64 value. The percentages are computed with one
  division and one multiplication, each rounded to the nearest binary64 value (ties to the
  even significand), and then \<^verbatim>\<open>Math.round\<close>. The values met here (quotients of two array
  lengths, and a hundred times those) lie in the normal range, where a value \<open>x\<close> with
  \<open>2\<^sup>e \<le> |x| < 2\<^sup>e\<^sup>+\<^sup>1\<close> is rounded to a multiple of \<open>2\<^sup>e\<^sup>-\<^sup>5\<^sup>2\<close>. Numbers are kept as exact
  rationals, the rounding is applied where the machine applies it.
\<close>

definition rne :: "rat \<Rightarrow> int" where
  \<comment> \<open>the nearest integer, a tie going to the even one\<close>
  "rne x = (let f = \<lfloor>x\<rfloor>; r = x - of_int f in
     if r < 1 / 2 then f else if 1 / 2 < r then f + 1 else if even f then f else f + 1)"

definition pow2 :: "int \<Rightarrow> rat" where
  "pow2 e = (if 0 \<le> e then 2 ^ nat e else 1 / 2 ^ nat (- e))"

definition ilog2 :: "rat \<Rightarrow> int" where
  \<comment> \<open>for \<open>0 < x\<close>: the exponent \<open>e\<close> with \<open>2\<^sup>e \<le> x < 2\<^sup>e\<^sup>+\<^sup>1\<close>\<close>
  "ilog2 x = (let (a, b) = quotient_of x; d = bitlen a - bitlen b
              in if pow2 d \<le> x then d else d - 1)"

definition double :: "rat \<Rightarrow> rat" where
  \<comment> \<open>rounding to binary64 in the normal range\<close>
  "double x = (if x = 0 then 0
     else (let u = pow2 (ilog2 \<bar>x\<bar> - 52) in of_int (rne (x / u)) * u))"

definition Math_round :: "rat \<Rightarrow> int" where
  \<comment> \<open>\<^verbatim>\<open>Math.round\<close>: the nearest integer, a tie going up\<close>
  "Math_round x = \<lfloor>x + 1 / 2\<rfloor>"

section \<open>The Metrics Aggregator\<close>

record metrics_view =
  hostsConfirmedPct :: int
  guestsConfirmedPct :: int
  matchesMade :: nat
  openIncidents :: nat

definition pct :: "nat \<Rightarrow> nat \<Rightarrow> int" where
  \<comment> \<open>\<^verbatim>\<open>Math.round(100 * (total ? part/total : 0))\<close>\<close>
  "pct part total_n =
     Math_round
       (double (100 * (if total_n \<noteq> 0 then double (of_nat part / of_nat total_n) else 0)))"

definition metrics ::
  "js_object list \<Rightarrow> js_object list \<Rightarrow> js_object list \<Rightarrow> js_object list \<Rightarrow> metrics_view" where
  "metrics hs gs incs ms =
     (let hostsConfirmed =
            length (filter (\<lambda>h. toLowerCase (js_or (js_get h ''confirmed'') []) = ''yes'') hs);
          guestsConfirmed =
            length (filter (\<lambda>g. toLowerCase (js_or (js_get g ''confirmed'') []) = ''yes'') gs);
          openInc =
            length (filter (\<lambda>i. toLowerCase (js_or (js_get i ''status'') []) \<noteq> ''closed'') incs)
      in \<lparr> hostsConfirmedPct = pct hostsConfirmed (length hs),
           guestsConfirmedPct = pct guestsConfirmed (length gs),
           matchesMade = length ms,
           openIncidents = openInc \<rparr>)"

section \<open>The Filter Engine\<close>

record filter_config =
  gender :: string
  allergy :: string
  access :: string

definition valid_filter :: "filter_config \<Rightarrow> bool" where
  \<comment> \<open>the state starts with "all" three times and changes only to a value of an
      \<^verbatim>\<open>option\<close> of the three \<^verbatim>\<open>select\<close> elements\<close>
  "valid_filter f = (gender f \<in> set [''all'', ''female'', ''male'', ''nonbinary'']
     \<and> allergy f \<in> set [''all'', ''gluten'', ''peanuts'']
     \<and> access f \<in> set [''all'', ''wheelchair'', ''elevator''])"

definition okG :: "filter_config \<Rightarrow> js_object \<Rightarrow> bool" where
  "okG f r = (gender f = ''all'' \<or>
     includes_str (toLowerCase (js_or (js_get r ''gender_comfort'') (js_or (js_get r ''gender'') [])))
       (gender f))"

definition okA :: "filter_config \<Rightarrow> js_object \<Rightarrow> bool" where
  "okA f r = (allergy f = ''all'' \<or>
     includes_str (toLowerCase (js_or (js_get r ''allergies'') [])) (allergy f))"

definition okAc :: "filter_config \<Rightarrow> js_object \<Rightarrow> bool" where
  "okAc f r = (access f = ''all'' \<or>
     includes_str (toLowerCase (js_or (js_get r ''accessibility'') [])) (access f))"

definition okQ :: "string \<Rightarrow> js_object \<Rightarrow> bool" where
  \<comment> \<open>\<open>q\<close> is the search text already lower-cased\<close>
  "okQ q r = (q = [] \<or> includes_str (toLowerCase (js_or (js_get r ''name'') [])) q)"

definition filteredRows ::
  "string \<Rightarrow> js_object list \<Rightarrow> js_object list \<Rightarrow> filter_config \<Rightarrow> string \<Rightarrow> js_object list" where
  "filteredRows tab hs gs f search =
     (let src = (if tab = ''hosts'' then hs else gs);
          q = toLowerCase search
      in filter (\<lambda>r. okG f r \<and> okA f r \<and> okAc f r \<and> okQ q r) src)"

section \<open>The Matching Engine\<close>

record suggestion =
  guest_id :: "string option"
  host_id :: "string option"
  score :: int
  reasons :: "string list"

definition genderOk :: "string \<Rightarrow> string \<Rightarrow> bool" where
  "genderOk pref gg = (pref = [] \<or> pref = ''any''
     \<or> (includes_str pref ''female'' \<and> startsWith gg ''f'')
     \<or> (includes_str pref ''male'' \<and> startsWith gg ''m'')
     \<or> (includes_str pref ''nonbinary'' \<and> startsWith gg ''n''))"

definition allergyOk :: "string \<Rightarrow> string \<Rightarrow> bool" where
  "allergyOk ga ha = (ga = [] \<or> ha = []
     \<or> \<not> list_ex (\<lambda>x. x \<noteq> [] \<and> includes_str ga x) (split_seps ha))"

definition award :: "bool \<Rightarrow> int \<Rightarrow> string \<Rightarrow> int \<times> string list \<Rightarrow> int \<times> string list" where
  \<comment> \<open>\<^verbatim>\<open>if (c) { score += n; reasons.push(why); }\<close>\<close>
  "award c n why acc = (if c then (fst acc + n, snd acc @ [why]) else acc)"

definition score_pair :: "js_object \<Rightarrow> js_object \<Rightarrow> suggestion option" where
  \<comment> \<open>the body of the inner loop; \<^const>\<open>None\<close> when nothing is pushed\<close>
  "score_pair g h =
     (let pref = toLowerCase (js_or (js_get h ''gender_comfort'') []);
          gg = toLowerCase (js_or (js_get g ''gender'') [])
      in if \<not> genderOk pref gg then None
         else
           (let ga = toLowerCase (js_or (js_get g ''allergies'') []);
                ha = toLowerCase (js_or (js_get h ''allergies'') []);
                acc0 = (0, []);
                acc1 = award (genderOk pref gg) 10 ''Gender comfort ok'' acc0;
                acc2 = award (allergyOk ga ha) 5 ''Allergies compatible'' acc1;
                acc3 = award
                  (includes_str (toLowerCase (js_or (js_get g ''accessibility'') [])) ''wheelchair''
                   \<and> includes_str (toLowerCase (js_or (js_get h ''accessibility'') [])) ''elevator'')
                  3 ''Accessibility'' acc2;
                acc4 = award
                  (toLowerCase (js_or (js_get g ''confirmed'') []) = ''yes''
                   \<and> toLowerCase (js_or (js_get h ''confirmed'') []) = ''yes'')
                  2 ''Both confirmed'' acc3
            in if 0 < fst acc4
               then Some \<lparr> guest_id = js_get g ''id'', host_id = js_get h ''id'',
                           score = fst acc4, reasons = snd acc4 \<rparr>
               else None))"

definition all_pairs :: "js_object list \<Rightarrow> js_object list \<Rightarrow> suggestion list" where
  \<comment> \<open>\<^verbatim>\<open>guests.forEach(g => hosts.forEach(h => ... out.push(...)))\<close>\<close>
  "all_pairs gs hs =
     fold (\<lambda>g out. fold (\<lambda>h out. case score_pair g h of None \<Rightarrow> out | Some s \<Rightarrow> out @ [s]) hs out)
       gs []"

fun insert_sorted :: "('a \<Rightarrow> 'a \<Rightarrow> int) \<Rightarrow> 'a \<Rightarrow> 'a list \<Rightarrow> 'a list" where
  "insert_sorted cmp x [] = [x]"
| "insert_sorted cmp x (y # ys) =
     (if cmp x y \<le> 0 then x # y # ys else y # insert_sorted cmp x ys)"

definition js_sort :: "('a \<Rightarrow> 'a \<Rightarrow> int) \<Rightarrow> 'a list \<Rightarrow> 'a list" where
  \<comment> \<open>\<^verbatim>\<open>Array.prototype.sort\<close> with a comparator is stable; for a comparator that orders by a
      key every stable sort gives this result\<close>
  "js_sort cmp xs = foldr (insert_sorted cmp) xs []"

definition ranked :: "js_object list \<Rightarrow> js_object list \<Rightarrow> suggestion list" where
  \<comment> \<open>\<^verbatim>\<open>out.sort((a,b)=>b.score-a.score)\<close>\<close>
  "ranked hs gs = js_sort (\<lambda>a b. score b - score a) (all_pairs gs hs)"

definition suggestions :: "js_object list \<Rightarrow> js_object list \<Rightarrow> suggestion list" where
  \<comment> \<open>\<^verbatim>\<open>.slice(0,50)\<close>; the dependency list is \<^verbatim>\<open>[hosts, guests]\<close>\<close>
  "suggestions hs gs = take 50 (ranked hs gs)"

section \<open>The Incident Ledger\<close>

record ledger =
  addedIncidents :: "js_object list"
  incidents :: "js_object list"

definition incidentRows :: "ledger \<Rightarrow> js_object list" where
  \<comment> \<open>\<^verbatim>\<open>[...addedIncidents, ...incidents]\<close>\<close>
  "incidentRows st = addedIncidents st @ incidents st"

definition incident_row :: "(string \<rightharpoonup> string) \<Rightarrow> string \<Rightarrow> js_object" where
  \<comment> \<open>the object literal of \<^verbatim>\<open>addIncident\<close>; \<open>fd\<close> is the submitted form, \<open>now\<close> the text
      of \<^verbatim>\<open>new Date().toISOString()\<close>\<close>
  "incident_row fd now =
     [(''time'', js_or (fd ''time'') now),
      (''type'', js_or (fd ''type'') []),
      (''person'', js_or (fd ''person'') []),
      (''status'', js_or (fd ''status'') ''Open''),
      (''notes'', js_or (fd ''notes'') [])]"

definition addIncident :: "(string \<rightharpoonup> string) \<Rightarrow> string \<Rightarrow> ledger \<Rightarrow> ledger" where
  \<comment> \<open>\<^verbatim>\<open>setAddedIncidents([row, ...addedIncidents])\<close>\<close>
  "addIncident fd now st = st\<lparr> addedIncidents := incident_row fd now # addedIncidents st \<rparr>"

abbreviation DQ :: char where "DQ \<equiv> CHR 0x22"

definition esc :: "string option \<Rightarrow> string" where
  \<comment> \<open>the template \<^verbatim>\<open>"${String(v??"").replace(/"/g,'""')}"\<close>\<close>
  "esc v = [DQ] @ concat (map (\<lambda>c. if c = DQ then [DQ, DQ] else [c])
                         (case v of None \<Rightarrow> [] | Some s \<Rightarrow> s)) @ [DQ]"

record download =
  file_name :: string
  mime_type :: string
  file_text :: string

definition exportIncidents :: "js_object list \<Rightarrow> download option" where
  \<comment> \<open>\<^const>\<open>None\<close>: the function returns before anything is created\<close>
  "exportIncidents rows =
     (case rows of
        [] \<Rightarrow> None
      | r0 # _ \<Rightarrow>
          (let headers = map fst r0;
               csv = join [LF] ([join '','' headers]
                       @ map (\<lambda>r. join '','' (map (\<lambda>h. esc (js_get r h)) headers)) rows)
           in Some \<lparr> file_name = ''incidents.csv'', mime_type = ''text/csv'', file_text = csv \<rparr>))"

section \<open>Notions of the specification\<close>

text \<open>
  The specification speaks of a field that is absent as of an empty string, of one text
  occurring inside another whatever the case of the letters, of a value wrapped in double
  quotes with its own double quotes doubled, of records encoded as delimited text, of
  confirmed hosts and of a rounded percentage. These are written here from the
  specification's words, to be compared with what the program computes.
\<close>

abbreviation field_or_empty :: "js_object \<Rightarrow> string \<Rightarrow> string" where
  "field_or_empty r k \<equiv> (case js_get r k of None \<Rightarrow> [] | Some v \<Rightarrow> v)"

definition contains_ci :: "string \<Rightarrow> string \<Rightarrow> bool" where
  \<comment> \<open>\<open>x\<close> occurs inside \<open>s\<close>, the case of letters not counting\<close>
  "contains_ci x s = sublist (toLowerCase x) (toLowerCase s)"

fun doubled :: "string \<Rightarrow> string" where
  "doubled [] = []"
| "doubled (c # cs) = (if c = DQ then DQ # DQ # doubled cs else c # doubled cs)"

definition spec_quote :: "string \<Rightarrow> string" where
  "spec_quote s = DQ # doubled s @ [DQ]"

definition spec_encode :: "string list \<Rightarrow> js_object list \<Rightarrow> string" where
  \<comment> \<open>header row: the keys joined by commas; then one row per record, its values joined
      by commas; rows joined by line feeds\<close>
  "spec_encode keys recs =
     join [LF] (join '','' keys # map (\<lambda>r. join '','' (map (field_or_empty r) keys)) recs)"

definition trimmed :: "string \<Rightarrow> bool" where
  \<comment> \<open>no white space at either end\<close>
  "trimmed s = (trim s = s)"

definition plain :: "string \<Rightarrow> bool" where
  \<comment> \<open>a text the encoding can carry: no comma, no line feed, no white space at either end\<close>
  "plain s = (CHR '','' \<notin> set s \<and> LF \<notin> set s \<and> trimmed s)"

definition is_confirmed :: "js_object \<Rightarrow> bool" where
  \<comment> \<open>the \<^verbatim>\<open>confirmed\<close> field, lower-cased, is "yes"; a record without the field is not confirmed\<close>
  "is_confirmed h = (case js_get h ''confirmed'' of None \<Rightarrow> False | Some v \<Rightarrow> toLowerCase v = ''yes'')"

definition confirmed_count :: "js_object list \<Rightarrow> nat" where
  "confirmed_count hs = length (filter is_confirmed hs)"

definition spec_pct :: "nat \<Rightarrow> nat \<Rightarrow> int" where
  \<comment> \<open>the exact quotient \<open>100 c / n\<close> rounded to the nearest integer; 0 when \<open>n = 0\<close>\<close>
  "spec_pct c n = (if n = 0 then 0 else Math_round (100 * of_nat c / of_nat n))"

definition halfway :: "rat \<Rightarrow> bool" where
  \<comment> \<open>\<open>x\<close> lies exactly in the middle between two integers\<close>
  "halfway x = (of_int \<lfloor>x + 1 / 2\<rfloor> = x + 1 / 2)"

section \<open>Facts about strings\<close>

lemma includes_str_iff: "includes_str s x \<longleftrightarrow> (\<exists>a b. s = a @ x @ b)"
proof (induction s)
  case Nil
  then show ?case by auto
next
  case (Cons c s)
  show ?case
  proof
    assume "includes_str (c # s) x"
    then consider "prefix x (c # s)" | "includes_str s x" by auto
    then show "\<exists>a b. c # s = a @ x @ b"
    proof cases
      case 1
      then obtain b where "c # s = x @ b" by (auto simp: prefix_def)
      then have "c # s = [] @ x @ b" by simp
      then show ?thesis by blast
    next
      case 2
      then obtain a b where "s = a @ x @ b" using Cons.IH by blast
      then have "c # s = (c # a) @ x @ b" by simp
      then show ?thesis by blast
    qed
  next
    assume "\<exists>a b. c # s = a @ x @ b"
    then obtain a b where ab: "c # s = a @ x @ b" by blast
    show "includes_str (c # s) x"
    proof (cases a)
      case Nil
      with ab have "prefix x (c # s)" by (simp add: prefix_def)
      then show ?thesis by simp
    next
      case (Cons d a')
      with ab have "s = a' @ x @ b" by simp
      then have "includes_str s x" using Cons.IH by blast
      then show ?thesis by simp
    qed
  qed
qed

lemma includes_female_male: "includes_str p ''female'' \<Longrightarrow> includes_str p ''male''"
proof -
  assume "includes_str p ''female''"
  then obtain a b where "p = a @ ''female'' @ b" by (auto simp: includes_str_iff)
  then have "p = (a @ ''fe'') @ ''male'' @ b" by simp
  then show ?thesis unfolding includes_str_iff by blast
qed

section \<open>The Matching Engine: one pair\<close>

lemma score_pair_None:
  "\<not> genderOk (toLowerCase (js_or (js_get h ''gender_comfort'') []))
         (toLowerCase (js_or (js_get g ''gender'') []))
   \<Longrightarrow> score_pair g h = None"
  by (simp add: score_pair_def Let_def)

lemma score_pair_Some:
  assumes "genderOk (toLowerCase (js_or (js_get h ''gender_comfort'') []))
             (toLowerCase (js_or (js_get g ''gender'') []))"
  shows "\<exists>s. score_pair g h = Some s \<and> 10 \<le> score s \<and> score s \<le> 20
    \<and> guest_id s = js_get g ''id'' \<and> host_id s = js_get h ''id''
    \<and> hd (reasons s) = ''Gender comfort ok''"
  using assms by (simp add: score_pair_def Let_def award_def)

lemma all_pairs_single:
  "all_pairs [g] [h] = (case score_pair g h of None \<Rightarrow> [] | Some s \<Rightarrow> [s])"
  by (simp add: all_pairs_def split: option.splits)

lemma suggestions_single:
  "suggestions [h] [g] = (case score_pair g h of None \<Rightarrow> [] | Some s \<Rightarrow> [s])"
  by (simp add: suggestions_def ranked_def all_pairs_single js_sort_def split: option.splits)

text \<open>
  C2. The host with allergies "peanuts", accessibility "elevator", confirmed "yes" and
  gender comfort "any", and the guest with no allergies, accessibility "wheelchair",
  confirmed "yes" and gender "female", give one suggestion: score 20, with the reasons
  "Gender comfort ok", "Allergies compatible", "Accessibility", "Both confirmed" in this
  order. Neither record has an \<^verbatim>\<open>id\<close>, so both ids are \<^verbatim>\<open>undefined\<close>.
\<close>

theorem scoring_example:
  "suggestions
     [[(''allergies'', ''peanuts''), (''accessibility'', ''elevator''),
       (''confirmed'', ''yes''), (''gender_comfort'', ''any'')]]
     [[(''allergies'', []), (''accessibility'', ''wheelchair''),
       (''confirmed'', ''yes''), (''gender'', ''female'')]]
   = [\<lparr> guest_id = None, host_id = None, score = 20,
         reasons = [''Gender comfort ok'', ''Allergies compatible'', ''Accessibility'',
                    ''Both confirmed''] \<rparr>]"
  by code_simp

text \<open>
  C3. A host whose gender comfort is "female" and a guest whose gender is
  "nonbinary-example": the pair does not pass the gate, nothing is scored and no
  suggestion is produced for it. The same host and a guest whose gender is "Female": the
  pair passes the gate and yields a suggestion. With both guests in the collection the
  suggestions are those of the second guest alone.
\<close>

theorem gender_gate_examples:
  assumes "js_get h ''gender_comfort'' = Some ''female''"
    and "js_get g1 ''gender'' = Some ''nonbinary-example''"
    and "js_get g2 ''gender'' = Some ''Female''"
  shows "score_pair g1 h = None \<and> suggestions [h] [g1] = []
       \<and> (\<exists>s. score_pair g2 h = Some s \<and> suggestions [h] [g2] = [s]
              \<and> suggestions [h] [g1, g2] = [s])"
proof -
  have "\<not> genderOk (toLowerCase (js_or (js_get h ''gender_comfort'') []))
              (toLowerCase (js_or (js_get g1 ''gender'') []))"
    using assms(1,2)
    by (simp add: genderOk_def startsWith_def toLowerCase_def lower_char_def is_upper_def)
  then have n: "score_pair g1 h = None" by (rule score_pair_None)
  have "genderOk (toLowerCase (js_or (js_get h ''gender_comfort'') []))
          (toLowerCase (js_or (js_get g2 ''gender'') []))"
    using assms(1,3)
    by (simp add: genderOk_def startsWith_def toLowerCase_def lower_char_def is_upper_def)
  then obtain s where s: "score_pair g2 h = Some s" using score_pair_Some by blast
  have "all_pairs [g1, g2] [h] = [s]" using n s by (simp add: all_pairs_def)
  then have "suggestions [h] [g1, g2] = [s]"
    by (simp add: suggestions_def ranked_def js_sort_def)
  then show ?thesis using n s by (simp add: suggestions_single)
qed

theorem gender_gate_examples_witness:
  "js_get [(''id'', ''h1''), (''gender_comfort'', ''female'')] ''gender_comfort'' = Some ''female''
   \<and> js_get [(''id'', ''g1''), (''gender'', ''nonbinary-example'')] ''gender''
       = Some ''nonbinary-example''
   \<and> js_get [(''id'', ''g2''), (''gender'', ''Female'')] ''gender'' = Some ''Female''
   \<and> suggestions [[(''id'', ''h1''), (''gender_comfort'', ''female'')]]
        [[(''id'', ''g1''), (''gender'', ''nonbinary-example'')]] = []
   \<and> (\<exists>s. suggestions [[(''id'', ''h1''), (''gender_comfort'', ''female'')]]
              [[(''id'', ''g2''), (''gender'', ''Female'')]] = [s])"
proof -
  have a: "js_get [(''id'', ''h1''), (''gender_comfort'', ''female'')] ''gender_comfort''
             = Some ''female''"
    by (simp add: js_get_def)
  have b: "js_get [(''id'', ''g1''), (''gender'', ''nonbinary-example'')] ''gender''
             = Some ''nonbinary-example''"
    by (simp add: js_get_def)
  have c: "js_get [(''id'', ''g2''), (''gender'', ''Female'')] ''gender'' = Some ''Female''"
    by (simp add: js_get_def)
  show ?thesis using gender_gate_examples [OF a b c] a b c by blast
qed

text \<open>
  C4. Whenever the host's lower-cased gender comfort contains "female" and the guest's
  lower-cased gender starts with "m", the gate passes, because "male" occurs inside
  "female": the pair is scored (with at least the 10 points of the gate) and is a
  suggestion.
\<close>

theorem female_pref_admits_m_guest:
  assumes "includes_str (toLowerCase (js_or (js_get h ''gender_comfort'') [])) ''female''"
    and "startsWith (toLowerCase (js_or (js_get g ''gender'') [])) ''m''"
  shows "genderOk (toLowerCase (js_or (js_get h ''gender_comfort'') []))
           (toLowerCase (js_or (js_get g ''gender'') []))
       \<and> (\<exists>s. score_pair g h = Some s \<and> 10 \<le> score s \<and> suggestions [h] [g] = [s])"
proof -
  have "includes_str (toLowerCase (js_or (js_get h ''gender_comfort'') [])) ''male''"
    using assms(1) by (rule includes_female_male)
  then have ok: "genderOk (toLowerCase (js_or (js_get h ''gender_comfort'') []))
                   (toLowerCase (js_or (js_get g ''gender'') []))"
    using assms(2) by (simp add: genderOk_def)
  then obtain s where "score_pair g h = Some s" "10 \<le> score s"
    using score_pair_Some by blast
  then show ?thesis using ok by (simp add: suggestions_single)
qed

theorem female_pref_admits_m_guest_witness:
  "includes_str (toLowerCase (js_or (js_get [(''gender_comfort'', ''Female only'')]
       ''gender_comfort'') [])) ''female''
   \<and> startsWith (toLowerCase (js_or (js_get [(''gender'', ''Male'')] ''gender'') [])) ''m''
   \<and> (\<exists>s. score_pair [(''gender'', ''Male'')] [(''gender_comfort'', ''Female only'')] = Some s
         \<and> 10 \<le> score s
         \<and> suggestions [[(''gender_comfort'', ''Female only'')]] [[(''gender'', ''Male'')]] = [s])"
proof -
  have a: "includes_str (toLowerCase (js_or (js_get [(''gender_comfort'', ''Female only'')]
             ''gender_comfort'') [])) ''female''"
    by (simp add: js_get_def toLowerCase_def lower_char_def is_upper_def)
  have b: "startsWith (toLowerCase (js_or (js_get [(''gender'', ''Male'')] ''gender'') [])) ''m''"
    by (simp add: js_get_def toLowerCase_def lower_char_def is_upper_def startsWith_def)
  show ?thesis using female_pref_admits_m_guest [OF a b] a b by blast
qed

section \<open>The Matching Engine: ranking\<close>

lemma inner_fold:
  "fold (\<lambda>h out. case f h of None \<Rightarrow> out | Some s \<Rightarrow> out @ [s]) hs out
     = out @ List.map_filter f hs"
  by (induction hs arbitrary: out) (auto simp: List.map_filter_simps split: option.splits)

lemma outer_fold: "fold (\<lambda>g out. out @ F g) gs out = out @ concat (map F gs)"
  by (induction gs arbitrary: out) auto

lemma all_pairs_enum:
  "all_pairs gs hs = concat (map (\<lambda>g. List.map_filter (score_pair g) hs) gs)"
  unfolding all_pairs_def inner_fold by (simp add: outer_fold)

lemma length_map_filter_le: "length (List.map_filter f xs) \<le> length xs"
  by (simp add: List.map_filter_def)

lemma length_all_pairs: "length (all_pairs gs hs) \<le> length gs * length hs"
proof (induction gs)
  case Nil
  then show ?case by (simp add: all_pairs_enum)
next
  case (Cons g gs)
  have "length (List.map_filter (score_pair g) hs) \<le> length hs"
    by (rule length_map_filter_le)
  with Cons show ?case by (simp add: all_pairs_enum)
qed

lemma insert_sorted_key:
  "insert_sorted (\<lambda>a b. key b - key a) x ys = insort_key (\<lambda>s. - key s) x ys"
  for key :: "'a \<Rightarrow> int"
  by (induction ys) auto

lemma js_sort_key: "js_sort (\<lambda>a b. key b - key a) xs = sort_key (\<lambda>s. - key s) xs"
  for key :: "'a \<Rightarrow> int"
  by (induction xs) (simp_all add: js_sort_def insert_sorted_key)

lemma sorted_desc: "sorted_wrt (\<lambda>a b. key b \<le> key a) (sort_key (\<lambda>s. - key s) xs)"
  for key :: "'a \<Rightarrow> int"
proof -
  have "sorted (map (\<lambda>s. - key s) (sort_key (\<lambda>s. - key s) xs))" by (rule sorted_sort_key)
  then show ?thesis by (simp add: sorted_map)
qed

text \<open>
  C1. The qualifying pairs are those the gate lets through, enumerated guest by guest and,
  for one guest, host by host. The ranked list is a rearrangement of that enumeration, in
  descending order of score, and the pairs of any one score \<open>k\<close> stand in it in the order
  of the enumeration. The suggestions are its first 50 entries, so there are at most
  \<open>min 50 (|guests| \<times> |hosts|)\<close> of them.
\<close>

theorem suggestions_ranked_and_capped:
  "suggestions hs gs = take 50 (ranked hs gs)
   \<and> mset (ranked hs gs) = mset (concat (map (\<lambda>g. List.map_filter (score_pair g) hs) gs))
   \<and> sorted_wrt (\<lambda>a b. score b \<le> score a) (ranked hs gs)
   \<and> filter (\<lambda>s. score s = k) (ranked hs gs)
       = filter (\<lambda>s. score s = k) (concat (map (\<lambda>g. List.map_filter (score_pair g) hs) gs))
   \<and> (score_pair g h = None) =
       (\<not> genderOk (toLowerCase (js_or (js_get h ''gender_comfort'') []))
            (toLowerCase (js_or (js_get g ''gender'') [])))
   \<and> length (suggestions hs gs) \<le> min 50 (length gs * length hs)"
proof -
  have r: "ranked hs gs = sort_key (\<lambda>s. - score s) (all_pairs gs hs)"
    by (simp add: ranked_def js_sort_key)
  have 1: "suggestions hs gs = take 50 (ranked hs gs)"
    by (simp add: suggestions_def)
  have 2: "mset (ranked hs gs)
             = mset (concat (map (\<lambda>g. List.map_filter (score_pair g) hs) gs))"
    by (simp add: r all_pairs_enum)
  have 3: "sorted_wrt (\<lambda>a b. score b \<le> score a) (ranked hs gs)"
    unfolding r by (rule sorted_desc)
  have "filter (\<lambda>s. - score s = - k) (sort_key (\<lambda>s. - score s) (all_pairs gs hs))
          = filter (\<lambda>s. - score s = - k) (all_pairs gs hs)"
    by (rule sort_key_stable)
  then have 4: "filter (\<lambda>s. score s = k) (ranked hs gs)
       = filter (\<lambda>s. score s = k) (concat (map (\<lambda>g. List.map_filter (score_pair g) hs) gs))"
    by (simp add: r all_pairs_enum)
  have 5: "(score_pair g h = None) =
       (\<not> genderOk (toLowerCase (js_or (js_get h ''gender_comfort'') []))
            (toLowerCase (js_or (js_get g ''gender'') [])))"
    using score_pair_None [of h g] score_pair_Some [of h g] by auto
  have "length (ranked hs gs) \<le> length gs * length hs"
    using length_all_pairs [of gs hs] by (simp add: r)
  then have 6: "length (suggestions hs gs) \<le> min 50 (length gs * length hs)"
    by (simp add: 1)
  show ?thesis using 1 2 3 4 5 6 by blast
qed

section \<open>The Incident Ledger: merge order and export\<close>

text \<open>
  C5. With no local additions and the loaded incidents \<open>X, Y\<close>, adding A and then B gives
  the merged sequence B, A, X, Y. In general an addition puts the new incident in front
  of the added list and leaves the loaded incidents alone, and the merged sequence is
  the added list followed by the loaded incidents.
\<close>

theorem incident_merge_order:
  "incidentRows (addIncident fdB nowB (addIncident fdA nowA
       \<lparr> addedIncidents = [], incidents = [X, Y] \<rparr>))
     = [incident_row fdB nowB, incident_row fdA nowA, X, Y]
   \<and> addedIncidents (addIncident fd now st) = incident_row fd now # addedIncidents st
   \<and> incidents (addIncident fd now st) = incidents st
   \<and> incidentRows (addIncident fd now st) = incident_row fd now # incidentRows st
   \<and> incidentRows st = addedIncidents st @ incidents st"
  by (simp add: incidentRows_def addIncident_def)

lemma replace_quotes_doubled:
  "concat (map (\<lambda>c. if c = DQ then [DQ, DQ] else [c]) s) = doubled s"
  by (induction s) auto

lemma esc_spec_quote: "esc v = spec_quote (case v of None \<Rightarrow> [] | Some s \<Rightarrow> s)"
  by (simp add: esc_def spec_quote_def replace_quotes_doubled)

text \<open>
  C10. The export of an empty merged sequence does nothing: no file is made. The export
  of a sequence that starts with the record \<open>r\<close> makes the file \<^verbatim>\<open>incidents.csv\<close>; its
  first line is the keys of \<open>r\<close> joined by commas, and every record gives one line, the
  values of those keys (empty when the record lacks the key), each wrapped in double
  quotes with its own double quotes doubled, joined by commas.
\<close>

theorem export_incidents:
  "exportIncidents [] = None
   \<and> exportIncidents (r # rs) =
       Some \<lparr> file_name = ''incidents.csv'', mime_type = ''text/csv'',
              file_text = join [LF]
                (join '','' (map fst r)
                 # map (\<lambda>x. join '','' (map (\<lambda>k. spec_quote (field_or_empty x k)) (map fst r)))
                     (r # rs)) \<rparr>"
  by (simp add: exportIncidents_def esc_spec_quote)

section \<open>The Filter Engine: conjunction\<close>

lemma js_or_empty: "js_or v [] = (case v of None \<Rightarrow> [] | Some s \<Rightarrow> s)"
  by (cases v) auto

lemma includes_str_sublist: "includes_str s x = sublist x s"
  by (simp add: includes_str_iff sublist_def)

lemma valid_filter_lower:
  assumes "valid_filter f"
  shows "toLowerCase (gender f) = gender f" "toLowerCase (allergy f) = allergy f"
    "toLowerCase (access f) = access f"
proof -
  have "gender f = ''all'' \<or> gender f = ''female'' \<or> gender f = ''male'' \<or> gender f = ''nonbinary''"
    using assms by (simp add: valid_filter_def)
  then show "toLowerCase (gender f) = gender f"
    by (elim disjE) (simp_all add: toLowerCase_def lower_char_def is_upper_def)
  have "allergy f = ''all'' \<or> allergy f = ''gluten'' \<or> allergy f = ''peanuts''"
    using assms by (simp add: valid_filter_def)
  then show "toLowerCase (allergy f) = allergy f"
    by (elim disjE) (simp_all add: toLowerCase_def lower_char_def is_upper_def)
  have "access f = ''all'' \<or> access f = ''wheelchair'' \<or> access f = ''elevator''"
    using assms by (simp add: valid_filter_def)
  then show "toLowerCase (access f) = access f"
    by (elim disjE) (simp_all add: toLowerCase_def lower_char_def is_upper_def)
qed

text \<open>
  C8. The filtered set is the records of the active class that pass the gender, the
  allergy, the accessibility and the name predicate together: a record is in it exactly
  when it is in the active class and passes all four, so one failed predicate excludes
  it. Each predicate is "the filter is off, or the filter text occurs inside the
  lower-cased field", an absent field counting as the empty string; the gender field is
  \<^verbatim>\<open>gender_comfort\<close> when that is not empty and \<^verbatim>\<open>gender\<close> otherwise. The search text is
  lower-cased before it is looked for in the name, and the filter values that the page can
  set are lower-case, so every containment test ignores the case of letters.
\<close>

theorem filter_conjunction:
  "filteredRows tab hs gs f search
     = filter (\<lambda>r. okG f r \<and> okA f r \<and> okAc f r \<and> okQ (toLowerCase search) r)
         (if tab = ''hosts'' then hs else gs)
   \<and> (r \<in> set (filteredRows tab hs gs f search) \<longleftrightarrow>
        r \<in> set (if tab = ''hosts'' then hs else gs)
        \<and> okG f r \<and> okA f r \<and> okAc f r \<and> okQ (toLowerCase search) r)
   \<and> (okG f r \<longleftrightarrow> gender f = ''all'' \<or>
        sublist (gender f) (toLowerCase
          (if field_or_empty r ''gender_comfort'' \<noteq> [] then field_or_empty r ''gender_comfort''
           else field_or_empty r ''gender'')))
   \<and> (okA f r \<longleftrightarrow> allergy f = ''all'' \<or>
        sublist (allergy f) (toLowerCase (field_or_empty r ''allergies'')))
   \<and> (okAc f r \<longleftrightarrow> access f = ''all'' \<or>
        sublist (access f) (toLowerCase (field_or_empty r ''accessibility'')))
   \<and> (okQ (toLowerCase search) r \<longleftrightarrow> search = [] \<or>
        contains_ci search (field_or_empty r ''name''))
   \<and> (valid_filter f \<longrightarrow>
        (okG f r \<longleftrightarrow> gender f = ''all'' \<or>
           contains_ci (gender f)
             (if field_or_empty r ''gender_comfort'' \<noteq> [] then field_or_empty r ''gender_comfort''
              else field_or_empty r ''gender''))
        \<and> (okA f r \<longleftrightarrow> allergy f = ''all'' \<or>
             contains_ci (allergy f) (field_or_empty r ''allergies''))
        \<and> (okAc f r \<longleftrightarrow> access f = ''all'' \<or>
             contains_ci (access f) (field_or_empty r ''accessibility'')))"
proof -
  have 1: "filteredRows tab hs gs f search
     = filter (\<lambda>r. okG f r \<and> okA f r \<and> okAc f r \<and> okQ (toLowerCase search) r)
         (if tab = ''hosts'' then hs else gs)"
    by (simp add: filteredRows_def Let_def)
  have 2: "r \<in> set (filteredRows tab hs gs f search) \<longleftrightarrow>
        r \<in> set (if tab = ''hosts'' then hs else gs)
        \<and> okG f r \<and> okA f r \<and> okAc f r \<and> okQ (toLowerCase search) r"
    unfolding 1 by simp
  have 3: "okG f r \<longleftrightarrow> gender f = ''all'' \<or>
        sublist (gender f) (toLowerCase
          (if field_or_empty r ''gender_comfort'' \<noteq> [] then field_or_empty r ''gender_comfort''
           else field_or_empty r ''gender''))"
    by (cases "js_get r ''gender_comfort''"; cases "js_get r ''gender''")
       (simp_all add: okG_def includes_str_sublist)
  have 4: "okA f r \<longleftrightarrow> allergy f = ''all'' \<or>
        sublist (allergy f) (toLowerCase (field_or_empty r ''allergies''))"
    by (simp add: okA_def includes_str_sublist js_or_empty)
  have 5: "okAc f r \<longleftrightarrow> access f = ''all'' \<or>
        sublist (access f) (toLowerCase (field_or_empty r ''accessibility''))"
    by (simp add: okAc_def includes_str_sublist js_or_empty)
  have 6: "okQ (toLowerCase search) r \<longleftrightarrow> search = [] \<or>
        contains_ci search (field_or_empty r ''name'')"
    by (simp add: okQ_def includes_str_sublist js_or_empty toLowerCase_def contains_ci_def)
  have 7: "valid_filter f \<longrightarrow>
        (okG f r \<longleftrightarrow> gender f = ''all'' \<or>
           contains_ci (gender f)
             (if field_or_empty r ''gender_comfort'' \<noteq> [] then field_or_empty r ''gender_comfort''
              else field_or_empty r ''gender''))
        \<and> (okA f r \<longleftrightarrow> allergy f = ''all'' \<or>
             contains_ci (allergy f) (field_or_empty r ''allergies''))
        \<and> (okAc f r \<longleftrightarrow> access f = ''all'' \<or>
             contains_ci (access f) (field_or_empty r ''accessibility''))"
    unfolding contains_ci_def using 3 4 5 by (simp add: valid_filter_lower)
  show ?thesis by (intro conjI 1 2 3 4 5 6 7)
qed

theorem filter_conjunction_witness:
  "valid_filter \<lparr> gender = ''female'', allergy = ''peanuts'', access = ''all'' \<rparr>
   \<and> okG \<lparr> gender = ''female'', allergy = ''peanuts'', access = ''all'' \<rparr>
        [(''name'', ''Ann''), (''gender_comfort'', ''Female only''), (''allergies'', ''none'')]
   \<and> \<not> okA \<lparr> gender = ''female'', allergy = ''peanuts'', access = ''all'' \<rparr>
        [(''name'', ''Ann''), (''gender_comfort'', ''Female only''), (''allergies'', ''none'')]
   \<and> [(''name'', ''Ann''), (''gender_comfort'', ''Female only''), (''allergies'', ''none'')]
        \<notin> set (filteredRows ''hosts''
              [[(''name'', ''Ann''), (''gender_comfort'', ''Female only''), (''allergies'', ''none'')]]
              [] \<lparr> gender = ''female'', allergy = ''peanuts'', access = ''all'' \<rparr> ''AN'')"
proof -
  have v: "valid_filter \<lparr> gender = ''female'', allergy = ''peanuts'', access = ''all'' \<rparr>"
    by (simp add: valid_filter_def)
  have g: "contains_ci ''female'' ''Female only''"
    unfolding contains_ci_def by code_simp
  have a: "\<not> contains_ci ''peanuts'' ''none''"
    unfolding contains_ci_def by code_simp
  note t = filter_conjunction [of "''hosts''"
      "[[(''name'', ''Ann''), (''gender_comfort'', ''Female only''), (''allergies'', ''none'')]]"
      "[]" "\<lparr> gender = ''female'', allergy = ''peanuts'', access = ''all'' \<rparr>" "''AN''"
      "[(''name'', ''Ann''), (''gender_comfort'', ''Female only''), (''allergies'', ''none'')]"]
  note t7 = t [THEN conjunct2, THEN conjunct2, THEN conjunct2, THEN conjunct2, THEN conjunct2,
      THEN conjunct2, THEN mp, OF v]
  note t2 = t [THEN conjunct2, THEN conjunct1]
  have G: "okG \<lparr> gender = ''female'', allergy = ''peanuts'', access = ''all'' \<rparr>
        [(''name'', ''Ann''), (''gender_comfort'', ''Female only''), (''allergies'', ''none'')]"
    using t7 g by (simp add: js_get_def)
  have A: "\<not> okA \<lparr> gender = ''female'', allergy = ''peanuts'', access = ''all'' \<rparr>
        [(''name'', ''Ann''), (''gender_comfort'', ''Female only''), (''allergies'', ''none'')]"
    using t7 a by (simp add: js_get_def)
  have "[(''name'', ''Ann''), (''gender_comfort'', ''Female only''), (''allergies'', ''none'')]
        \<notin> set (filteredRows ''hosts''
              [[(''name'', ''Ann''), (''gender_comfort'', ''Female only''), (''allergies'', ''none'')]]
              [] \<lparr> gender = ''female'', allergy = ''peanuts'', access = ''all'' \<rparr> ''AN'')"
    using t2 A by blast
  then show ?thesis using v G A by blast
qed

section \<open>The Tabular Decoder: rows\<close>

lemma map_of_insert_index:
  "map_of r k = None \<Longrightarrow> map_of (insert_index k v r) = (map_of r)(k \<mapsto> v)"
proof (induction r)
  case Nil
  then show ?case by simp
next
  case (Cons p ps)
  then have ne: "fst p \<noteq> k" and n: "map_of ps k = None"
    by (cases p; auto split: if_splits)+
  show ?case
  proof (cases "is_array_index (fst p) \<and> digits_value (fst p) < digits_value k")
    case True
    then show ?thesis using Cons.IH [OF n] ne by (cases p) (auto simp: fun_eq_iff)
  next
    case False
    then show ?thesis by (auto simp: fun_eq_iff)
  qed
qed

lemma map_of_js_set:
  "map_of (js_set r k v) = (if k = ''__proto__'' then map_of r else (map_of r)(k \<mapsto> v))"
proof (cases "k = ''__proto__''")
  case True
  then show ?thesis by (simp add: js_set_def)
next
  case False
  show ?thesis
  proof (cases "map_of r k")
    case None
    then show ?thesis using False
      by (auto simp: js_set_def map_of_insert_index fun_eq_iff map_add_def split: option.splits)
  next
    case (Some w)
    then show ?thesis using False by (simp add: js_set_def update_conv')
  qed
qed

lemma js_get_js_set:
  "js_get (js_set r k v) k' =
     (if k = ''__proto__'' then js_get r k' else if k' = k then Some v else js_get r k')"
  by (simp add: js_get_def map_of_js_set)

lemma trim_Nil: "trim [] = []" by (simp add: trim_def)

lemma cell_eq: "cell cols i = (if i < length cols then trim (cols ! i) else [])"
  by (simp add: cell_def nth_opt_def trim_Nil)

lemma fold_rows_other:
  "k \<notin> set (map trim hs) \<or> k = ''__proto__'' \<Longrightarrow>
   js_get (fold (\<lambda>(i, h) row. js_set row (trim h) (val i)) (enumerate n hs) row) k = js_get row k"
proof (induction hs arbitrary: n row)
  case Nil
  then show ?case by simp
next
  case (Cons h hs)
  then have "js_get (js_set row (trim h) (val n)) k = js_get row k"
    by (auto simp: js_get_js_set)
  then show ?case using Cons by auto
qed

lemma fold_rows_last:
  "i < length hs \<Longrightarrow> trim (hs ! i) \<noteq> ''__proto__'' \<Longrightarrow>
   trim (hs ! i) \<notin> set (map trim (drop (Suc i) hs)) \<Longrightarrow>
   js_get (fold (\<lambda>(i, h) row. js_set row (trim h) (val i)) (enumerate n hs) row) (trim (hs ! i))
     = Some (val (n + i))"
proof (induction hs arbitrary: n row i)
  case Nil
  then show ?case by simp
next
  case (Cons h hs)
  show ?case
  proof (cases i)
    case 0
    with Cons.prems have a: "trim h \<noteq> ''__proto__''" and b: "trim h \<notin> set (map trim hs)"
      by auto
    have "js_get (fold (\<lambda>(i, h) row. js_set row (trim h) (val i)) (enumerate (Suc n) hs)
            (js_set row (trim h) (val n))) (trim h)
          = js_get (js_set row (trim h) (val n)) (trim h)"
      using b by (intro fold_rows_other) simp
    then show ?thesis using 0 a by (simp add: js_get_js_set)
  next
    case (Suc j)
    with Cons.prems have "j < length hs" "trim (hs ! j) \<noteq> ''__proto__''"
      "trim (hs ! j) \<notin> set (map trim (drop (Suc j) hs))" by auto
    from Cons.IH [OF this, of "Suc n" "js_set row (trim h) (val n)"]
    show ?thesis using Suc by simp
  qed
qed

lemma build_row_last:
  assumes "i < length headers" "trim (headers ! i) \<noteq> ''__proto__''"
    "trim (headers ! i) \<notin> set (map trim (drop (Suc i) headers))"
  shows "js_get (build_row headers cols) (trim (headers ! i))
           = Some (if i < length cols then trim (cols ! i) else [])"
  unfolding build_row_def using fold_rows_last [OF assms, of "cell cols" 0 "[]"]
  by (simp add: cell_eq)

lemma build_row_other:
  "k \<notin> set (map trim headers) \<or> k = ''__proto__'' \<Longrightarrow> js_get (build_row headers cols) k = None"
  unfolding build_row_def using fold_rows_other [of k headers "cell cols" 0 "[]"]
  by (simp add: js_get_def)

lemma build_row_keys:
  "js_get (build_row headers cols) k \<noteq> None \<Longrightarrow> k \<in> set (map trim headers)"
  by (rule ccontr) (simp add: build_row_other)

lemma build_row_take: "build_row headers cols = build_row headers (take (length headers) cols)"
proof -
  have "\<And>x. x \<in> set (enumerate 0 headers) \<Longrightarrow>
          (\<lambda>(i, h) row. js_set row (trim h) (cell cols i)) x
          = (\<lambda>(i, h) row. js_set row (trim h) (cell (take (length headers) cols) i)) x"
    by (auto simp: in_set_enumerate_eq cell_eq)
  then show ?thesis unfolding build_row_def by (intro fold_cong) auto
qed

lemma cons_first_not_Nil: "cons_first c xs \<noteq> []"
  by (cases xs) auto

lemma split_lines_LF: "split_lines (LF # cs) = [] # split_lines cs"
  by (subst split_lines.simps) simp

lemma split_lines_CRLF: "split_lines (CR # LF # cs) = [] # split_lines cs"
  by (subst split_lines.simps) simp

lemma split_lines_single: "c \<noteq> LF \<Longrightarrow> split_lines [c] = [[c]]"
  by (subst split_lines.simps) simp

lemma split_lines_other:
  "c \<noteq> LF \<Longrightarrow> \<not> (c = CR \<and> d = LF) \<Longrightarrow>
   split_lines (c # d # ds) = cons_first c (split_lines (d # ds))"
  by (subst split_lines.simps) (auto simp del: split_lines.simps)

lemma split_lines_not_Nil: "split_lines s \<noteq> []"
proof (cases s)
  case Nil
  then show ?thesis by simp
next
  case (Cons c cs)
  show ?thesis
  proof (cases "c = LF")
    case True
    then show ?thesis using Cons by (simp add: split_lines_LF del: split_lines.simps)
  next
    case False
    show ?thesis
    proof (cases cs)
      case Nil
      then show ?thesis using Cons False by (simp add: split_lines_single del: split_lines.simps)
    next
      case (Cons d ds)
      show ?thesis
      proof (cases "c = CR \<and> d = LF")
        case True
        then show ?thesis using \<open>s = c # cs\<close> Cons
          by (simp add: split_lines_CRLF del: split_lines.simps)
      next
        case False
        then show ?thesis using \<open>s = c # cs\<close> Cons \<open>c \<noteq> LF\<close>
          by (simp add: split_lines_other cons_first_not_Nil del: split_lines.simps)
      qed
    qed
  qed
qed

lemma parseCSV_rows:
  "split_lines (trim text) = l0 # rest \<Longrightarrow>
   parseCSV text = map (\<lambda>l. build_row (split_char (CHR '','') l0) (split_char (CHR '','') l)) rest"
  by (simp add: parseCSV_def Let_def)

lemma parseCSV_empty: "trim text = [] \<Longrightarrow> parseCSV text = []"
  by (simp add: parseCSV_def Let_def)

text \<open>
  C9. The decoder is a total function: for every text it returns a sequence. The trimmed
  text always has a first line, the header line. When nothing is left after trimming the
  result is empty, and in general there is one row per line after the header line (none
  for a text of the header line alone). In the row of data line \<open>j\<close>, the trimmed name of
  header \<open>i\<close> is mapped to the trimmed value \<open>i\<close> of the line, or to the empty string when
  the line has no value \<open>i\<close>, provided that this name does not occur again at a later
  header position and is not \<^verbatim>\<open>__proto__\<close>. The row has no field besides the trimmed header
  names, and the values beyond the last header do not matter.
\<close>

theorem decoder_rows:
  assumes "lines = split_lines (trim raw)"
    and "headers = split_char (CHR '','') (lines ! 0)"
    and "cols = split_char (CHR '','') (lines ! Suc j)"
  shows "lines \<noteq> []
    \<and> (trim raw = [] \<longrightarrow> parseCSV raw = [])
    \<and> length (parseCSV raw) = length lines - 1
    \<and> (Suc j < length lines \<longrightarrow>
         parseCSV raw ! j = build_row headers cols
         \<and> (i < length headers \<and> trim (headers ! i) \<noteq> ''__proto__''
              \<and> trim (headers ! i) \<notin> set (map trim (drop (Suc i) headers)) \<longrightarrow>
              js_get (parseCSV raw ! j) (trim (headers ! i))
                = Some (if i < length cols then trim (cols ! i) else []))
         \<and> (\<forall>k. js_get (parseCSV raw ! j) k \<noteq> None \<longrightarrow> k \<in> set (map trim headers))
         \<and> build_row headers cols = build_row headers (take (length headers) cols))"
proof -
  have 1: "lines \<noteq> []" unfolding assms(1) by (rule split_lines_not_Nil)
  then obtain l0 rest where l: "lines = l0 # rest" by (cases lines) auto
  have h: "headers = split_char (CHR '','') l0" using assms(2) l by simp
  have p: "parseCSV raw = map (\<lambda>l. build_row headers (split_char (CHR '','') l)) rest"
    using parseCSV_rows [of raw l0 rest] assms(1) l h by simp
  have 2: "trim raw = [] \<longrightarrow> parseCSV raw = []" by (simp add: parseCSV_empty)
  have 3: "length (parseCSV raw) = length lines - 1" by (simp add: p l)
  have 4: "Suc j < length lines \<longrightarrow>
         parseCSV raw ! j = build_row headers cols
         \<and> (i < length headers \<and> trim (headers ! i) \<noteq> ''__proto__''
              \<and> trim (headers ! i) \<notin> set (map trim (drop (Suc i) headers)) \<longrightarrow>
              js_get (parseCSV raw ! j) (trim (headers ! i))
                = Some (if i < length cols then trim (cols ! i) else []))
         \<and> (\<forall>k. js_get (parseCSV raw ! j) k \<noteq> None \<longrightarrow> k \<in> set (map trim headers))
         \<and> build_row headers cols = build_row headers (take (length headers) cols)"
  proof
    assume "Suc j < length lines"
    then have j: "j < length rest" using l by simp
    have c: "cols = split_char (CHR '','') (rest ! j)" using assms(3) l by simp
    have a: "parseCSV raw ! j = build_row headers cols" using j c by (simp add: p)
    have b: "i < length headers \<and> trim (headers ! i) \<noteq> ''__proto__''
              \<and> trim (headers ! i) \<notin> set (map trim (drop (Suc i) headers)) \<longrightarrow>
              js_get (parseCSV raw ! j) (trim (headers ! i))
                = Some (if i < length cols then trim (cols ! i) else [])"
      unfolding a by (intro impI, elim conjE) (rule build_row_last)
    have d: "\<forall>k. js_get (parseCSV raw ! j) k \<noteq> None \<longrightarrow> k \<in> set (map trim headers)"
      unfolding a by (intro allI impI) (rule build_row_keys)
    have e: "build_row headers cols = build_row headers (take (length headers) cols)"
      by (rule build_row_take)
    show "parseCSV raw ! j = build_row headers cols
         \<and> (i < length headers \<and> trim (headers ! i) \<noteq> ''__proto__''
              \<and> trim (headers ! i) \<notin> set (map trim (drop (Suc i) headers)) \<longrightarrow>
              js_get (parseCSV raw ! j) (trim (headers ! i))
                = Some (if i < length cols then trim (cols ! i) else []))
         \<and> (\<forall>k. js_get (parseCSV raw ! j) k \<noteq> None \<longrightarrow> k \<in> set (map trim headers))
         \<and> build_row headers cols = build_row headers (take (length headers) cols)"
      by (intro conjI a b d e)
  qed
  show ?thesis by (intro conjI 1 2 3 4)
qed

theorem decoder_rows_witness:
  "trim ''  '' = [] \<and> parseCSV ''  '' = []
   \<and> [''id, name ,x'', ''1, Bob '', ''2,Al,y,z'']
       = split_lines (trim (''id, name ,x'' @ [CR, LF] @ ''1, Bob '' @ [LF] @ ''2,Al,y,z'' @ [LF, LF]))
   \<and> [''id'', '' name '', ''x'']
       = split_char (CHR '','') ([''id, name ,x'', ''1, Bob '', ''2,Al,y,z''] ! 0)
   \<and> [''1'', '' Bob '']
       = split_char (CHR '','') ([''id, name ,x'', ''1, Bob '', ''2,Al,y,z''] ! Suc 0)
   \<and> Suc 0 < length [''id, name ,x'', ''1, Bob '', ''2,Al,y,z'']
   \<and> (2::nat) < length [''id'', '' name '', ''x'']
   \<and> trim ([''id'', '' name '', ''x''] ! 2) \<noteq> ''__proto__''
   \<and> trim ([''id'', '' name '', ''x''] ! 2) \<notin> set (map trim (drop (Suc 2) [''id'', '' name '', ''x'']))
   \<and> length (parseCSV (''id, name ,x'' @ [CR, LF] @ ''1, Bob '' @ [LF] @ ''2,Al,y,z'' @ [LF, LF])) = 2
   \<and> js_get (parseCSV (''id, name ,x'' @ [CR, LF] @ ''1, Bob '' @ [LF] @ ''2,Al,y,z'' @ [LF, LF]) ! 0)
        (trim ([''id'', '' name '', ''x''] ! 2)) = Some []"
proof -
  have t: "trim ''  '' = []" by code_simp
  have z: "parseCSV ''  '' = []"
    using decoder_rows [OF refl refl refl, where raw = "''  ''" and j = 0 and i = 0] t by blast
  have a: "[''id, name ,x'', ''1, Bob '', ''2,Al,y,z'']
       = split_lines (trim (''id, name ,x'' @ [CR, LF] @ ''1, Bob '' @ [LF] @ ''2,Al,y,z'' @ [LF, LF]))"
    by code_simp
  have b: "[''id'', '' name '', ''x'']
       = split_char (CHR '','') ([''id, name ,x'', ''1, Bob '', ''2,Al,y,z''] ! 0)"
    by code_simp
  have d: "[''1'', '' Bob '']
       = split_char (CHR '','') ([''id, name ,x'', ''1, Bob '', ''2,Al,y,z''] ! Suc 0)"
    by code_simp
  have c: "Suc 0 < length [''id, name ,x'', ''1, Bob '', ''2,Al,y,z'']" by simp
  have e: "(2::nat) < length [''id'', '' name '', ''x'']" by simp
  have f: "trim ([''id'', '' name '', ''x''] ! 2) \<noteq> ''__proto__''" by code_simp
  have g: "trim ([''id'', '' name '', ''x''] ! 2)
             \<notin> set (map trim (drop (Suc 2) [''id'', '' name '', ''x'']))"
    by simp
  note th = decoder_rows [OF a b d, where i = 2]
  have n: "length (parseCSV (''id, name ,x'' @ [CR, LF] @ ''1, Bob '' @ [LF] @ ''2,Al,y,z'' @ [LF, LF]))
      = length [''id, name ,x'', ''1, Bob '', ''2,Al,y,z''] - 1"
    using th by blast
  have "js_get (parseCSV (''id, name ,x'' @ [CR, LF] @ ''1, Bob '' @ [LF] @ ''2,Al,y,z'' @ [LF, LF]) ! 0)
        (trim ([''id'', '' name '', ''x''] ! 2))
      = Some (if 2 < length [''1'', '' Bob ''] then trim ([''1'', '' Bob ''] ! 2) else [])"
    using th c e f g by blast
  then have r: "js_get (parseCSV (''id, name ,x'' @ [CR, LF] @ ''1, Bob '' @ [LF] @ ''2,Al,y,z'' @ [LF, LF]) ! 0)
        (trim ([''id'', '' name '', ''x''] ! 2)) = Some []"
    by simp
  have n2: "length (parseCSV (''id, name ,x'' @ [CR, LF] @ ''1, Bob '' @ [LF] @ ''2,Al,y,z'' @ [LF, LF])) = 2"
    using n by simp
  show ?thesis by (intro conjI t z a b d c e f g n2 r)
qed

theorem decoder_repeated_header_counterexample:
  "parseCSV (''a,a'' @ [LF] @ ''1,2'') = [[(''a'', ''2'')]]
   \<and> split_char (CHR '','') (split_lines (trim (''a,a'' @ [LF] @ ''1,2'')) ! 0) ! 0 = ''a''
   \<and> split_char (CHR '','') (split_lines (trim (''a,a'' @ [LF] @ ''1,2'')) ! 1) ! 0 = ''1''
   \<and> js_get (parseCSV (''a,a'' @ [LF] @ ''1,2'') ! 0) (trim ''a'') \<noteq> Some (trim ''1'')"
  by code_simp

section \<open>The Tabular Decoder: decoding an encoding\<close>

lemma dropWhile_same_length: "length (dropWhile P xs) = length xs \<Longrightarrow> dropWhile P xs = xs"
proof -
  assume a: "length (dropWhile P xs) = length xs"
  have "length (takeWhile P xs) + length (dropWhile P xs) = length xs"
    by (metis length_append takeWhile_dropWhile_id)
  with a have "takeWhile P xs = []" by simp
  then show ?thesis by (metis append_Nil takeWhile_dropWhile_id)
qed

lemma trimmed_iff:
  "trimmed s \<longleftrightarrow> s = [] \<or> (\<not> is_space (hd s) \<and> \<not> is_space (last s))"
proof (cases "s = []")
  case True
  then show ?thesis by (simp add: trimmed_def trim_def)
next
  case False
  show ?thesis
  proof
    assume t: "trimmed s"
    let ?t = "dropWhile is_space s"
    have eq: "rev (dropWhile is_space (rev ?t)) = s" using t by (simp add: trimmed_def trim_def)
    have l1: "length (dropWhile is_space (rev ?t)) \<le> length ?t"
      by (metis length_dropWhile_le length_rev)
    have l2: "length ?t \<le> length s" by (rule length_dropWhile_le)
    have l3: "length (dropWhile is_space (rev ?t)) = length s"
      using eq by (metis length_rev)
    have "length ?t = length s" using l1 l2 l3 by simp
    then have ts: "?t = s" by (rule dropWhile_same_length)
    then have h: "\<not> is_space (hd s)" using False by (simp add: dropWhile_eq_self_iff)
    have "dropWhile is_space (rev s) = rev s" using eq ts by (metis rev_rev_ident)
    then have "\<not> is_space (hd (rev s))" using False by (simp add: dropWhile_eq_self_iff)
    then have "\<not> is_space (last s)" using False by (simp add: hd_rev)
    with h show "s = [] \<or> (\<not> is_space (hd s) \<and> \<not> is_space (last s))" by simp
  next
    assume "s = [] \<or> (\<not> is_space (hd s) \<and> \<not> is_space (last s))"
    with False have h: "\<not> is_space (hd s)" and l: "\<not> is_space (last s)" by auto
    have 1: "dropWhile is_space s = s" using h by (simp add: dropWhile_eq_self_iff)
    have "\<not> is_space (hd (rev s))" using l False by (simp add: hd_rev)
    then have 2: "dropWhile is_space (rev s) = rev s" by (simp add: dropWhile_eq_self_iff)
    show "trimmed s" by (simp add: trimmed_def trim_def 1 2)
  qed
qed

lemma comma_no_space: "\<not> is_space (CHR '','')"
  by (simp add: is_space_def)

lemma CR_space: "is_space CR" by (simp add: is_space_def)
lemma LF_space: "is_space LF" by (simp add: is_space_def)

lemma join_Cons: "ts \<noteq> [] \<Longrightarrow> join sep (t # ts) = t @ sep @ join sep ts"
  by (cases ts) auto

lemma split_char_piece:
  "c \<notin> set t \<Longrightarrow> split_char c (t @ c # r) = t # split_char c r"
  by (induction t) auto

lemma split_char_last: "c \<notin> set t \<Longrightarrow> split_char c t = [t]"
  by (induction t) auto

lemma split_char_join:
  "ts \<noteq> [] \<Longrightarrow> \<forall>t\<in>set ts. c \<notin> set t \<Longrightarrow> split_char c (join [c] ts) = ts"
proof (induction ts)
  case Nil
  then show ?case by simp
next
  case (Cons t ts)
  show ?case
  proof (cases "ts = []")
    case True
    then show ?thesis using Cons.prems by (simp add: split_char_last)
  next
    case False
    then have "split_char c (join [c] ts) = ts" using Cons by simp
    then show ?thesis using False Cons.prems by (simp add: join_Cons split_char_piece)
  qed
qed

lemma split_lines_piece:
  "LF \<notin> set l \<Longrightarrow> l = [] \<or> last l \<noteq> CR \<Longrightarrow> split_lines (l @ LF # r) = l # split_lines r"
proof (induction l)
  case Nil
  then show ?case by (simp add: split_lines_LF del: split_lines.simps)
next
  case (Cons a l)
  then have a: "a \<noteq> LF" by auto
  show ?case
  proof (cases l)
    case Nil
    then have "a \<noteq> CR" using Cons.prems by simp
    then show ?thesis using Nil a
      by (simp add: split_lines_other split_lines_LF del: split_lines.simps)
  next
    case (Cons b l')
    then have b: "b \<noteq> LF" using Cons.prems \<open>LF \<notin> set (a # l)\<close> by auto
    have "split_lines (l @ LF # r) = l # split_lines r"
      using Cons.IH Cons.prems Cons by auto
    then show ?thesis using Cons a b
      by (simp add: split_lines_other del: split_lines.simps)
  qed
qed

lemma split_lines_last: "LF \<notin> set l \<Longrightarrow> split_lines l = [l]"
proof (induction l)
  case Nil
  then show ?case by simp
next
  case (Cons a l)
  then have a: "a \<noteq> LF" by auto
  show ?case
  proof (cases l)
    case Nil
    then show ?thesis using a by (simp add: split_lines_single del: split_lines.simps)
  next
    case (Cons b l')
    then have b: "b \<noteq> LF" using \<open>LF \<notin> set (a # l)\<close> by auto
    have "split_lines l = [l]" using Cons.IH Cons.prems by auto
    then show ?thesis using Cons a b
      by (simp add: split_lines_other del: split_lines.simps)
  qed
qed

lemma split_lines_join:
  "ls \<noteq> [] \<Longrightarrow> \<forall>l\<in>set ls. LF \<notin> set l \<and> (l = [] \<or> last l \<noteq> CR) \<Longrightarrow>
   split_lines (join [LF] ls) = ls"
proof (induction ls)
  case Nil
  then show ?case by simp
next
  case (Cons l ls)
  show ?case
  proof (cases "ls = []")
    case True
    then show ?thesis using Cons.prems by (simp add: split_lines_last del: split_lines.simps)
  next
    case False
    then have "split_lines (join [LF] ls) = ls" using Cons by simp
    then show ?thesis using False Cons.prems
      by (simp add: join_Cons split_lines_piece del: split_lines.simps)
  qed
qed


lemma set_join: "set (join sep ts) \<subseteq> set sep \<union> \<Union> (set ` set ts)"
  by (induction sep ts rule: join.induct) auto

lemma trimmed_join: "\<forall>t\<in>set ts. trimmed t \<Longrightarrow> trimmed (join '','' ts)"
proof (induction ts)
  case Nil
  then show ?case by (simp add: trimmed_iff)
next
  case (Cons t ts)
  show ?case
  proof (cases "ts = []")
    case True
    then show ?thesis using Cons.prems by simp
  next
    case False
    have j: "trimmed (join '','' ts)" using Cons by simp
    have t: "trimmed t" using Cons.prems by simp
    have e: "join '','' (t # ts) = t @ CHR '','' # join '','' ts"
      using False by (simp add: join_Cons)
    have h: "\<not> is_space (hd (t @ CHR '','' # join '','' ts))"
      using t by (cases t) (auto simp: trimmed_iff comma_no_space)
    have l: "\<not> is_space (last (t @ CHR '','' # join '','' ts))"
      using j by (auto simp: trimmed_iff comma_no_space)
    show ?thesis unfolding e using h l by (simp add: trimmed_iff)
  qed
qed

lemma hd_join:
  "ls \<noteq> [] \<Longrightarrow> hd ls \<noteq> [] \<Longrightarrow> hd (join sep ls) = hd (hd ls) \<and> join sep ls \<noteq> []"
  by (induction sep ls rule: join.induct) auto

lemma last_join:
  "ls \<noteq> [] \<Longrightarrow> last ls \<noteq> [] \<Longrightarrow> last (join sep ls) = last (last ls) \<and> join sep ls \<noteq> []"
  by (induction sep ls rule: join.induct) auto

lemma field_in_record:
  "k \<in> fst ` set r \<Longrightarrow> \<exists>v. js_get r k = Some v \<and> v \<in> snd ` set r"
proof -
  assume "k \<in> fst ` set r"
  then obtain v where v: "map_of r k = Some v"
    by (metis domD dom_map_of_conv_image_fst)
  then have "(k, v) \<in> set r" by (rule map_of_SomeD)
  then have "v \<in> snd ` set r" by force
  with v show ?thesis by (auto simp: js_get_def)
qed

lemma build_row_record:
  assumes d: "distinct keys"
    and k: "\<forall>k\<in>set keys. trimmed k \<and> k \<noteq> ''__proto__''"
    and r: "fst ` set r = set keys"
    and v: "\<forall>v\<in>snd ` set r. trimmed v"
  shows "js_get (build_row keys (map (field_or_empty r) keys)) = js_get r"
proof
  fix x
  have tk: "map trim keys = keys" using k by (simp add: map_idI trimmed_def)
  show "js_get (build_row keys (map (field_or_empty r) keys)) x = js_get r x"
  proof (cases "x \<in> set keys")
    case False
    then have "js_get (build_row keys (map (field_or_empty r) keys)) x = None"
      by (intro build_row_other) (simp add: tk)
    moreover have "js_get r x = None"
      using False r by (simp add: js_get_def map_of_eq_None_iff)
    ultimately show ?thesis by simp
  next
    case True
    then obtain i where i: "i < length keys" "keys ! i = x" by (auto simp: in_set_conv_nth)
    have tx: "trim (keys ! i) = x" using i k by (auto simp: trimmed_def)
    have np: "trim (keys ! i) \<noteq> ''__proto__''" using tx True k by auto
    have "x \<notin> set (drop (Suc i) keys)"
      using d i by (metis Cons_nth_drop_Suc append_take_drop_id distinct.simps(2) distinct_append)
    then have later: "trim (keys ! i) \<notin> set (map trim (drop (Suc i) keys))"
      using tx by (simp add: tk drop_map [symmetric])
    obtain w where w: "js_get r x = Some w" "w \<in> snd ` set r"
      using field_in_record [of x r] True r by auto
    then have tw: "trim w = w" using v by (auto simp: trimmed_def)
    have "js_get (build_row keys (map (field_or_empty r) keys)) (trim (keys ! i))
            = Some (if i < length (map (field_or_empty r) keys)
                    then trim (map (field_or_empty r) keys ! i) else [])"
      using i(1) np later by (rule build_row_last)
    then show ?thesis using i w tw tx by simp
  qed
qed


text \<open>
  C7. Take a list of distinct keys, none of them \<^verbatim>\<open>__proto__\<close>, and records that have
  exactly these keys; let keys and values contain no comma and no line feed and have no
  white space at either end; let neither the header line nor the last row of the encoding
  be empty (the decoder trims the text, which removes an empty first or last line).
  Then decoding the encoding gives back the records: the same number of records, each
  equal to the original as a mapping.
\<close>

theorem decoder_round_trip:
  assumes d: "distinct keys"
    and k: "\<forall>k\<in>set keys. plain k \<and> k \<noteq> ''__proto__''"
    and r: "\<forall>r\<in>set recs. fst ` set r = set keys \<and> (\<forall>v\<in>snd ` set r. plain v)"
    and h: "join '','' keys \<noteq> []"
    and l: "recs \<noteq> [] \<longrightarrow> join '','' (map (field_or_empty (last recs)) keys) \<noteq> []"
  shows "map js_get (parseCSV (spec_encode keys recs)) = map js_get recs"
proof -
  let ?H = "join '','' keys"
  let ?row = "\<lambda>r. join '','' (map (field_or_empty r) keys)"
  let ?L = "?H # map ?row recs"
  have keys_ne: "keys \<noteq> []" using h by auto
  have vals: "plain (field_or_empty r x)" if "r \<in> set recs" "x \<in> set keys" for r x
  proof -
    have rk: "fst ` set r = set keys" and rv: "\<forall>v\<in>snd ` set r. plain v"
      using r that(1) by blast+
    have "x \<in> fst ` set r" using rk that(2) by simp
    then obtain w where "js_get r x = Some w" "w \<in> snd ` set r"
      using field_in_record by blast
    then show ?thesis using rv by auto
  qed
  have H_ok: "LF \<notin> set ?H \<and> trimmed ?H"
  proof
    show "LF \<notin> set ?H" using set_join [of "'',''" keys] k by (auto simp: plain_def)
    show "trimmed ?H" using k by (intro trimmed_join) (simp add: plain_def)
  qed
  have row_ok: "LF \<notin> set (?row r) \<and> trimmed (?row r)" if "r \<in> set recs" for r
  proof
    show "LF \<notin> set (?row r)"
      using set_join [of "'',''" "map (field_or_empty r) keys"] vals [OF that]
      by (auto simp: plain_def)
    show "trimmed (?row r)" using vals [OF that] by (intro trimmed_join) (simp add: plain_def)
  qed
  have lines_ok: "\<forall>l\<in>set ?L. LF \<notin> set l \<and> trimmed l"
    using H_ok row_ok by auto
  have last_ne: "last ?L \<noteq> []" using h l by (cases "recs = []") (simp_all add: last_map)
  have text_ne: "join [LF] ?L \<noteq> []" and hd_text: "hd (join [LF] ?L) = hd ?H"
    using hd_join [of ?L "[LF]"] h by simp_all
  have last_text: "last (join [LF] ?L) = last (last ?L)"
    using last_join [of ?L "[LF]"] last_ne by simp
  have "trimmed (last ?L)" using lines_ok by (metis last_in_set list.distinct(1))
  then have "\<not> is_space (last (join [LF] ?L))"
    using last_ne last_text by (simp add: trimmed_iff)
  moreover have "\<not> is_space (hd (join [LF] ?L))"
    using H_ok h hd_text by (simp add: trimmed_iff)
  ultimately have "trimmed (join [LF] ?L)" by (simp add: trimmed_iff)
  then have trim_text: "trim (spec_encode keys recs) = join [LF] ?L"
    by (simp add: trimmed_def spec_encode_def)
  have "\<forall>l\<in>set ?L. LF \<notin> set l \<and> (l = [] \<or> last l \<noteq> CR)"
    using lines_ok CR_space by (metis trimmed_iff)
  then have "split_lines (join [LF] ?L) = ?L" by (intro split_lines_join) simp_all
  then have lines: "split_lines (trim (spec_encode keys recs)) = ?H # map ?row recs"
    by (simp add: trim_text)
  have headers: "split_char (CHR '','') ?H = keys"
    using keys_ne k by (intro split_char_join) (auto simp: plain_def)
  have cols: "split_char (CHR '','') (?row r) = map (field_or_empty r) keys"
    if "r \<in> set recs" for r
    using keys_ne vals [OF that] by (intro split_char_join) (auto simp: plain_def)
  have rows: "parseCSV (spec_encode keys recs)
     = map (\<lambda>l. build_row keys (split_char (CHR '','') l)) (map ?row recs)"
    using parseCSV_rows [OF lines] headers by simp
  have "js_get (build_row keys (split_char (CHR '','') (?row r))) = js_get r"
    if "r \<in> set recs" for r
  proof -
    have "js_get (build_row keys (map (field_or_empty r) keys)) = js_get r"
      using d k r that by (intro build_row_record) (auto simp: plain_def)
    then show ?thesis by (simp add: cols [OF that])
  qed
  then show ?thesis unfolding rows by (simp add: comp_def)
qed

theorem decoder_round_trip_witness:
  "distinct [''id'', ''name'']
   \<and> plain ''id'' \<and> plain ''name'' \<and> plain ''1'' \<and> plain ''Ada B'' \<and> plain [] \<and> plain ''2''
   \<and> join '','' [''id'', ''name''] \<noteq> []
   \<and> join '','' (map (field_or_empty
         (last [[(''id'', ''1''), (''name'', ''Ada B'')], [(''name'', []), (''id'', ''2'')]]))
         [''id'', ''name'']) \<noteq> []
   \<and> map js_get (parseCSV (spec_encode [''id'', ''name'']
         [[(''id'', ''1''), (''name'', ''Ada B'')], [(''name'', []), (''id'', ''2'')]]))
       = map js_get [[(''id'', ''1''), (''name'', ''Ada B'')], [(''name'', []), (''id'', ''2'')]]"
proof -
  have a: "distinct [''id'', ''name'']" by simp
  have p: "plain ''id'' \<and> plain ''name'' \<and> plain ''1'' \<and> plain ''Ada B'' \<and> plain [] \<and> plain ''2''"
    by (simp add: plain_def trimmed_def trim_def is_space_def)
  have b: "\<forall>k\<in>set [''id'', ''name'']. plain k \<and> k \<noteq> ''__proto__''"
    using p by simp
  have c: "\<forall>r\<in>set [[(''id'', ''1''), (''name'', ''Ada B'')], [(''name'', []), (''id'', ''2'')]].
         fst ` set r = set [''id'', ''name''] \<and> (\<forall>v\<in>snd ` set r. plain v)"
    using p by auto
  have e: "join '','' [''id'', ''name''] \<noteq> []" by simp
  have f: "join '','' (map (field_or_empty
         (last [[(''id'', ''1''), (''name'', ''Ada B'')], [(''name'', []), (''id'', ''2'')]]))
         [''id'', ''name'']) \<noteq> []"
    by (simp add: js_get_def)
  have g: "[[(''id'', ''1''), (''name'', ''Ada B'')], [(''name'', []), (''id'', ''2'')]] \<noteq> []
     \<longrightarrow> join '','' (map (field_or_empty
         (last [[(''id'', ''1''), (''name'', ''Ada B'')], [(''name'', []), (''id'', ''2'')]]))
         [''id'', ''name'']) \<noteq> []"
    using f by blast
  show ?thesis using decoder_round_trip [OF a b c e g] a p e f by blast
qed

theorem decoder_round_trip_counterexample:
  "CHR '','' \<notin> set '' Bob''
   \<and> parseCSV (spec_encode [''name''] [[(''name'', '' Bob'')]]) = [[(''name'', ''Bob'')]]
   \<and> js_get (parseCSV (spec_encode [''name''] [[(''name'', '' Bob'')]]) ! 0) ''name''
       \<noteq> js_get ([[(''name'', '' Bob'')]] ! 0) ''name''"
  by code_simp

section \<open>The Metrics Aggregator: percentages\<close>

lemma pow2_powi: "pow2 e = 2 powi e"
  by (simp add: pow2_def power_int_def inverse_eq_divide power_one_over)

lemma rne_bound: "\<bar>of_int (rne y) - y\<bar> \<le> 1 / 2"
proof -
  have "of_int \<lfloor>y\<rfloor> \<le> y" "y < of_int \<lfloor>y\<rfloor> + 1" by linarith+
  then show ?thesis by (auto simp: rne_def Let_def)
qed

lemma of_int_pow2_le: "0 < a \<Longrightarrow> (2::rat) powi (bitlen a - 1) \<le> of_int a"
proof -
  assume a: "0 < a"
  then have "1 \<le> bitlen a" by (auto simp: bitlen_alt_def)
  have "(2::int) ^ nat (bitlen a - 1) \<le> a" using bitlen_bounds [OF a] by simp
  then have "(of_int ((2::int) ^ nat (bitlen a - 1)) :: rat) \<le> of_int a"
    by (simp only: of_int_le_iff)
  then show ?thesis using \<open>1 \<le> bitlen a\<close> by (simp add: power_int_def)
qed

lemma of_int_less_pow2: "0 < a \<Longrightarrow> (of_int a :: rat) < 2 powi (bitlen a)"
proof -
  assume a: "0 < a"
  have "0 \<le> bitlen a" by (rule bitlen_nonneg)
  have "a < (2::int) ^ nat (bitlen a)" using bitlen_bounds [OF a] by simp
  then have "(of_int a :: rat) < of_int ((2::int) ^ nat (bitlen a))"
    by (simp only: of_int_less_iff)
  then show ?thesis using \<open>0 \<le> bitlen a\<close> by (simp add: power_int_def)
qed

lemma ilog2_bounds:
  assumes "0 < x"
  shows "2 powi (ilog2 x) \<le> x \<and> x < 2 powi (ilog2 x + 1)"
proof -
  obtain a b where q: "quotient_of x = (a, b)" by (cases "quotient_of x")
  have b: "0 < b" using q by (rule quotient_of_denom_pos)
  have x: "x = of_int a / of_int b" using q by (rule quotient_of_div)
  have a: "0 < a" using assms b x by (simp add: zero_less_divide_iff)
  let ?d = "bitlen a - bitlen b"
  have a1: "(2::rat) powi (bitlen a - 1) \<le> of_int a" and a2: "(of_int a :: rat) < 2 powi (bitlen a)"
    using a by (rule of_int_pow2_le, rule of_int_less_pow2)
  have b1: "(2::rat) powi (bitlen b - 1) \<le> of_int b" and b2: "(of_int b :: rat) < 2 powi (bitlen b)"
    using b by (rule of_int_pow2_le, rule of_int_less_pow2)
  have bp: "(0::rat) < of_int b" using b by simp
  have up: "x < 2 powi (?d + 1)"
  proof -
    have "of_int a < (2::rat) powi (?d + 1) * 2 powi (bitlen b - 1)"
      using a2 by (simp add: power_int_add [symmetric])
    also have "\<dots> \<le> 2 powi (?d + 1) * of_int b"
      using b1 by (intro mult_left_mono) simp_all
    finally show ?thesis using bp by (simp add: x pos_divide_less_eq)
  qed
  have lo: "2 powi (?d - 1) < x"
  proof -
    have "(2::rat) powi (?d - 1) * of_int b < 2 powi (?d - 1) * 2 powi (bitlen b)"
      using b2 by (intro mult_strict_left_mono) simp_all
    also have "\<dots> = 2 powi (bitlen a - 1)" by (simp add: power_int_add [symmetric])
    also have "\<dots> \<le> of_int a" by (rule a1)
    finally show ?thesis using bp by (simp add: x pos_less_divide_eq)
  qed
  show ?thesis
  proof (cases "pow2 ?d \<le> x")
    case True
    then have "ilog2 x = ?d" by (simp add: ilog2_def q)
    then show ?thesis using True up by (simp add: pow2_powi)
  next
    case False
    then have "ilog2 x = ?d - 1" by (simp add: ilog2_def q)
    then show ?thesis using False lo by (simp add: pow2_powi)
  qed
qed

lemma double_error:
  assumes "0 < x"
  shows "\<bar>double x - x\<bar> \<le> x / 2 ^ 53"
proof -
  let ?e = "ilog2 x"
  let ?u = "(2::rat) powi (?e - 52)"
  have u: "0 < ?u" by simp
  have d: "double x = of_int (rne (x / ?u)) * ?u"
    using assms by (simp add: double_def pow2_powi Let_def)
  have "\<bar>double x - x\<bar> = \<bar>of_int (rne (x / ?u)) - x / ?u\<bar> * ?u"
  proof -
    have "double x - x = (of_int (rne (x / ?u)) - x / ?u) * ?u"
      using u by (simp add: d field_simps)
    then show ?thesis using u by (simp add: abs_mult)
  qed
  also have "\<dots> \<le> 1 / 2 * ?u" using rne_bound u by (intro mult_right_mono) simp_all
  also have "\<dots> = 2 powi ?e / 2 ^ 53"
  proof -
    have "(2::rat) powi (?e - 52) = 2 powi ?e / 2 ^ 52" by (simp add: power_int_diff)
    then show ?thesis by simp
  qed
  also have "\<dots> \<le> x / 2 ^ 53"
    using ilog2_bounds [OF assms] by (simp add: divide_right_mono)
  finally show ?thesis .
qed


lemma product_error:
  assumes "0 < c" "c \<le> n"
  shows "\<bar>double (100 * double (of_nat c / of_nat n)) - 100 * of_nat c / of_nat n\<bar> < 1 / 2 ^ 45"
proof -
  define x :: rat where "x = of_nat c / of_nat n"
  define d1 where "d1 = double x"
  define y where "y = 100 * d1"
  have n: "0 < n" using assms by simp
  have x0: "0 < x" using assms n by (simp add: x_def)
  have x1: "x \<le> 1" using assms n by (simp add: x_def divide_le_eq_1)
  have e1: "\<bar>d1 - x\<bar> \<le> x / 2 ^ 53" unfolding d1_def using x0 by (rule double_error)
  have "x / 2 ^ 53 \<le> 1 / 2 ^ 53" using x1 by (simp add: divide_right_mono)
  with e1 have e1': "\<bar>d1 - x\<bar> \<le> 1 / 2 ^ 53" by linarith
  have "x / 2 ^ 53 < x" using x0 by simp
  with e1 have d1pos: "0 < d1" by linarith
  have d1le: "d1 \<le> 1 + 1 / 2 ^ 53" using e1' x1 by linarith
  have y0: "0 < y" using d1pos by (simp add: y_def)
  have e2: "\<bar>double y - y\<bar> \<le> y / 2 ^ 53" using y0 by (rule double_error)
  have "y \<le> 100 * (1 + 1 / 2 ^ 53)" using d1le by (simp add: y_def)
  then have "y / 2 ^ 53 \<le> 100 * (1 + 1 / 2 ^ 53) / 2 ^ 53"
    by (intro divide_right_mono) simp_all
  with e2 have e2': "\<bar>double y - y\<bar> \<le> 100 * (1 + 1 / 2 ^ 53) / 2 ^ 53" by linarith
  have "y - 100 * x = 100 * (d1 - x)" by (simp add: y_def)
  then have "\<bar>y - 100 * x\<bar> = \<bar>100 * (d1 - x)\<bar>" by (rule arg_cong)
  also have "\<dots> = 100 * \<bar>d1 - x\<bar>" by (subst abs_mult) simp
  finally have "\<bar>y - 100 * x\<bar> = 100 * \<bar>d1 - x\<bar>" .
  with e1' have e3: "\<bar>y - 100 * x\<bar> \<le> 100 / 2 ^ 53" by simp
  have "\<bar>double y - 100 * x\<bar> \<le> 100 * (1 + 1 / 2 ^ 53) / 2 ^ 53 + 100 / 2 ^ 53"
    using e2' e3 by linarith
  also have "\<dots> < 1 / 2 ^ 45" by simp
  finally have "\<bar>double y - 100 * x\<bar> < 1 / 2 ^ 45" .
  then show ?thesis by (simp add: y_def d1_def x_def)
qed

lemma floor_near:
  fixes m k :: int and t :: rat
  assumes k: "0 < k" and t: "\<bar>t\<bar> < 1 / of_int k"
  shows "m div k - 1 \<le> \<lfloor>of_int m / of_int k + t\<rfloor>"
    and "\<lfloor>of_int m / of_int k + t\<rfloor> \<le> m div k"
    and "m mod k \<noteq> 0 \<Longrightarrow> \<lfloor>of_int m / of_int k + t\<rfloor> = m div k"
proof -
  let ?s = "of_int m / of_int k :: rat"
  have kp: "(0::rat) < of_int k" using k by simp
  have "m = k * (m div k) + m mod k" by simp
  then have "(of_int m :: rat) = of_int k * of_int (m div k) + of_int (m mod k)"
    by (metis of_int_add of_int_mult)
  then have s: "?s = of_int (m div k) + of_int (m mod k) / of_int k"
    using kp by (simp add: field_simps)
  have r0: "0 \<le> m mod k" and r1: "m mod k \<le> k - 1" using k by simp_all
  have f0: "(0::rat) \<le> of_int (m mod k) / of_int k" using r0 kp by simp
  have "(of_int (m mod k) :: rat) \<le> of_int k - 1" using r1 by (metis of_int_1 of_int_diff of_int_le_iff)
  then have f1: "of_int (m mod k) / of_int k \<le> (1::rat) - 1 / of_int k"
    using kp by (simp add: field_simps)
  have k1: "1 / (of_int k :: rat) \<le> 1" using k by simp
  have lo: "of_int (m div k - 1) \<le> ?s + t" using s f0 t k1 by simp
  have hi: "?s + t < of_int (m div k) + 1" using s f1 t by linarith
  show "m div k - 1 \<le> \<lfloor>?s + t\<rfloor>" using lo by (simp add: le_floor_iff)
  show "\<lfloor>?s + t\<rfloor> \<le> m div k" using hi by (simp add: floor_le_iff)
  show "\<lfloor>?s + t\<rfloor> = m div k" if "m mod k \<noteq> 0"
  proof -
    have "1 \<le> m mod k" using that r0 by simp
    then have "(1::rat) \<le> of_int (m mod k)" by (metis of_int_1 of_int_le_iff)
    then have "1 / of_int k \<le> (of_int (m mod k) :: rat) / of_int k"
      using kp by (simp add: divide_right_mono)
    then have "of_int (m div k) \<le> ?s + t" using s t by linarith
    then show ?thesis using hi by (intro floor_unique) simp_all
  qed
qed


lemma double_0: "double 0 = 0"
  by (simp add: double_def)

lemma Math_round_0: "Math_round 0 = 0"
proof -
  have "\<lfloor>1 / 2 :: rat\<rfloor> = 0" by (rule floor_unique) simp_all
  then show ?thesis by (simp add: Math_round_def)
qed

lemma pct_zero_total: "pct c 0 = 0"
  by (simp add: pct_def double_0 Math_round_0)

lemma pct_vs_exact:
  assumes cn: "c \<le> n" and n0: "0 < n" and nb: "n \<le> 2 ^ 44"
  shows "spec_pct c n - 1 \<le> pct c n"
    and "pct c n \<le> spec_pct c n"
    and "\<not> halfway (100 * of_nat c / of_nat n) \<Longrightarrow> pct c n = spec_pct c n"
proof -
  define q :: rat where "q = 100 * of_nat c / of_nat n"
  define m :: int where "m = 200 * int c + int n"
  define k :: int where "k = 2 * int n"
  define t where "t = double (100 * double (of_nat c / of_nat n)) - q"
  have k0: "0 < k" using n0 by (simp add: k_def)
  have np: "(0::rat) < of_nat n" using n0 by simp
  have mk: "of_int m / of_int k = q + 1 / 2"
    using np by (simp add: m_def k_def q_def field_simps)
  have e: "of_int m / of_int k + t = double (100 * double (of_nat c / of_nat n)) + 1 / 2"
    by (simp add: mk t_def)
  have p: "pct c n = \<lfloor>of_int m / of_int k + t\<rfloor>"
    unfolding e using n0 by (simp add: pct_def Math_round_def)
  have "spec_pct c n = \<lfloor>of_int m / of_int k :: rat\<rfloor>"
    using n0 by (simp add: spec_pct_def Math_round_def mk q_def)
  then have sp: "spec_pct c n = m div k" by (simp add: floor_divide_of_int_eq)
  have "int n \<le> 2 ^ 44" using nb by (metis of_nat_le_iff of_nat_numeral of_nat_power)
  then have "k \<le> 2 ^ 45" by (simp add: k_def)
  then have "(of_int k :: rat) \<le> 2 ^ 45" by (metis of_int_le_iff of_int_numeral of_int_power)
  then have kb: "1 / 2 ^ 45 \<le> 1 / (of_int k :: rat)"
    using k0 by (simp add: frac_le)
  have t: "\<bar>t\<bar> < 1 / of_int k"
  proof (cases "c = 0")
    case True
    then have "t = 0" by (simp add: t_def q_def double_0)
    then show ?thesis using k0 by simp
  next
    case False
    then have "\<bar>t\<bar> < 1 / 2 ^ 45" unfolding t_def q_def using cn by (intro product_error) simp_all
    then show ?thesis using kb by linarith
  qed
  show "spec_pct c n - 1 \<le> pct c n" unfolding p sp using k0 t by (rule floor_near(1))
  show "pct c n \<le> spec_pct c n" unfolding p sp using k0 t by (rule floor_near(2))
  show "pct c n = spec_pct c n" if nh: "\<not> halfway (100 * of_nat c / of_nat n)"
  proof -
    have "m mod k \<noteq> 0"
    proof
      assume "m mod k = 0"
      then have "m = k * (m div k)" by auto
      then have "(of_int m :: rat) = of_int k * of_int (m div k)" by (metis of_int_mult)
      then have "of_int (m div k) = (of_int m :: rat) / of_int k" using k0 by simp
      then have "of_int \<lfloor>q + 1 / 2\<rfloor> = q + 1 / 2"
        using mk by (metis floor_of_int)
      then show False using nh by (simp add: halfway_def q_def)
    qed
    then show ?thesis unfolding p sp using k0 t by (intro floor_near(3))
  qed
qed

lemma metrics_hosts_pct:
  "hostsConfirmedPct (metrics hs gs incs ms) = pct (confirmed_count hs) (length hs)"
proof -
  have "(\<lambda>h. toLowerCase (js_or (js_get h ''confirmed'') []) = ''yes'') = is_confirmed"
  proof
    fix h
    show "(toLowerCase (js_or (js_get h ''confirmed'') []) = ''yes'') = is_confirmed h"
      by (cases "js_get h ''confirmed''") (auto simp: is_confirmed_def toLowerCase_def)
  qed
  then show ?thesis by (simp add: metrics_def Let_def confirmed_count_def)
qed

lemma pct_2_4: "pct 2 4 = 50"
  by code_simp


text \<open>
  How far the computed percentage is from the exactly rounded one: for a collection
  shorter than \<open>2\<^sup>3\<^sup>2\<close> the two agree whenever \<open>100 c / n\<close> does not lie exactly halfway
  between two integers, and the computed one is never more than one below and never
  above the exact one. Without hosts the result is 0, and the four hosts with confirmed
  values "Yes", "yes", "no", "" give 50.
\<close>

lemma hosts_pct_near_exact:
  assumes "length hs < 2 ^ 32"
  shows "hostsConfirmedPct (metrics hs gs incs ms) = pct (confirmed_count hs) (length hs)
    \<and> pct c 0 = 0
    \<and> hostsConfirmedPct (metrics [] gs incs ms) = 0
    \<and> (\<not> halfway (100 * of_nat (confirmed_count hs) / of_nat (length hs)) \<longrightarrow>
         hostsConfirmedPct (metrics hs gs incs ms) = spec_pct (confirmed_count hs) (length hs))
    \<and> spec_pct (confirmed_count hs) (length hs) - 1 \<le> hostsConfirmedPct (metrics hs gs incs ms)
    \<and> hostsConfirmedPct (metrics hs gs incs ms) \<le> spec_pct (confirmed_count hs) (length hs)
    \<and> hostsConfirmedPct (metrics
          [[(''confirmed'', ''Yes'')], [(''confirmed'', ''yes'')], [(''confirmed'', ''no'')],
           [(''confirmed'', [])]] gs incs ms) = 50"
proof -
  let ?c = "confirmed_count hs" and ?n = "length hs"
  have 1: "hostsConfirmedPct (metrics hs gs incs ms) = pct ?c ?n"
    by (rule metrics_hosts_pct)
  have 2: "pct c 0 = 0" by (rule pct_zero_total)
  have 3: "hostsConfirmedPct (metrics [] gs incs ms) = 0"
    by (simp add: metrics_hosts_pct pct_zero_total)
  have cn: "?c \<le> ?n" by (simp add: confirmed_count_def)
  have nb: "?n \<le> 2 ^ 44"
  proof -
    have "(2::nat) ^ 32 \<le> 2 ^ 44" by simp
    with assms show ?thesis by linarith
  qed
  have 456: "(\<not> halfway (100 * of_nat ?c / of_nat ?n) \<longrightarrow> pct ?c ?n = spec_pct ?c ?n)
      \<and> spec_pct ?c ?n - 1 \<le> pct ?c ?n \<and> pct ?c ?n \<le> spec_pct ?c ?n"
  proof (cases "?n = 0")
    case True
    then show ?thesis by (simp add: pct_zero_total spec_pct_def)
  next
    case False
    then have "0 < ?n" by simp
    from pct_vs_exact [OF cn this nb] show ?thesis by blast
  qed
  have c4: "confirmed_count [[(''confirmed'', ''Yes'')], [(''confirmed'', ''yes'')],
      [(''confirmed'', ''no'')], [(''confirmed'', [])]] = 2"
    by code_simp
  have l4: "length [[(''confirmed'', ''Yes'')], [(''confirmed'', ''yes'')],
      [(''confirmed'', ''no'')], [(''confirmed'', [])]] = 4"
    by simp
  have 7: "hostsConfirmedPct (metrics
          [[(''confirmed'', ''Yes'')], [(''confirmed'', ''yes'')], [(''confirmed'', ''no'')],
           [(''confirmed'', [])]] gs incs ms) = 50"
    unfolding metrics_hosts_pct c4 l4 by (rule pct_2_4)
  show ?thesis unfolding 1 using 2 3 456 7 unfolding metrics_hosts_pct by blast
qed

text \<open>
  C6. \<^verbatim>\<open>hostsConfirmedPct\<close> is meant to be \<open>100 c / n\<close> rounded to the nearest integer, for
  \<open>n\<close> hosts of which \<open>c\<close> have a \<^verbatim>\<open>confirmed\<close> field that is "yes" when lower-cased. The
  code divides first and multiplies afterwards, and each step is rounded to binary64.
  With 40 hosts of which 23 are confirmed the quotient is rounded to a value below
  \<open>23 / 40\<close>, the product comes out below 57.5, and the result is 57. The exact value is
  57.5, which rounds to 58, and multiplying before dividing gives 58 as well.
\<close>

theorem confirmed_percentage_at_23_of_40:
  "length (replicate 23 [(''confirmed'', ''yes'')] @ replicate 17 [(''confirmed'', ''no'')]) = 40
   \<and> confirmed_count
       (replicate 23 [(''confirmed'', ''yes'')] @ replicate 17 [(''confirmed'', ''no'')]) = 23
   \<and> hostsConfirmedPct (metrics
       (replicate 23 [(''confirmed'', ''yes'')] @ replicate 17 [(''confirmed'', ''no'')])
       [] [] []) = 57
   \<and> pct 23 40 = 57
   \<and> spec_pct 23 40 = 58
   \<and> Math_round (double (100 * 23 / 40)) = 58"
  by code_simp

end
